theory Spec2Isabelle
  imports Main "HOL-Library.Word"
begin

section \<open>Constants of the two scripts\<close>

definition GRID_SIZE :: nat where
  "GRID_SIZE = 256"

definition THRESHOLD :: nat where
  "THRESHOLD = 128"

definition SEASON_1_LIMIT :: nat where
  "SEASON_1_LIMIT = 12000"

section \<open>The two tables\<close>

text \<open>
  Table \<open>cells (cell_id, x, y, filled, is_mask)\<close> and table \<open>usernames (username, cell_id)\<close>.
  A table is the list of its rows in physical order. The columns \<open>x\<close> and \<open>y\<close> are the
  fields \<open>cell_x\<close> and \<open>cell_y\<close>.
\<close>

record cell =
  cell_id :: nat
  cell_x :: nat
  cell_y :: nat
  filled :: bool
  is_mask :: bool

type_synonym claim = "string \<times> nat"

record db =
  cells :: "cell list"
  usernames :: "claim list"

section \<open>String normalisation: \<open>s.trim().toLowerCase()\<close>\<close>

text \<open>
  A string is a list of code units below 256. \<open>trim\<close> strips the white space and line
  terminators of ECMAScript in that range (TAB, LF, VT, FF, CR, SP, NBSP) from both ends;
  \<open>toLowerCase\<close> maps \<open>A..Z\<close> and the upper-case letters \<open>0xC0..0xDE\<close> (without
  \<open>0xD7\<close>) to the letter 32 positions further.
\<close>

definition is_space :: "char \<Rightarrow> bool" where
  "is_space ch = ((of_char ch :: nat) \<in> {9, 10, 11, 12, 13, 32, 160})"

definition trim :: "string \<Rightarrow> string" where
  "trim s = rev (dropWhile is_space (rev (dropWhile is_space s)))"

definition lower_char :: "char \<Rightarrow> char" where
  "lower_char ch =
     (let n = (of_char ch :: nat) in
      if (65 \<le> n \<and> n \<le> 90) \<or> (192 \<le> n \<and> n \<le> 222 \<and> n \<noteq> 215)
      then char_of (n + 32) else ch)"

definition toLowerCase :: "string \<Rightarrow> string" where
  "toLowerCase s = map lower_char s"

definition trim_lower :: "string \<Rightarrow> string" where
  "trim_lower raw = toLowerCase (trim raw)"

section \<open>A database client\<close>

text \<open>
  A client of the pool sees the tables (\<open>store\<close>), remembers the tables as they were at
  \<open>BEGIN\<close> while a transaction is open (\<open>snapshot\<close>), and carries the storage failure
  of the request, if any: \<open>fault = Some n\<close> makes the query after the next \<open>n\<close> ones
  reject. A rejected query leaves the tables as they are and ends in the handler's
  \<open>catch\<close> block.
\<close>

record conn =
  store :: db
  snapshot :: "db option"
  fault :: "nat option"

datatype 'a res = Throw conn | Ok 'a conn

definition then_res :: "'a res \<Rightarrow> ('a \<Rightarrow> conn \<Rightarrow> 'b res) \<Rightarrow> 'b res" where
  "then_res m f = (case m of Throw c \<Rightarrow> Throw c | Ok r c \<Rightarrow> f r c)"

definition tick :: "conn \<Rightarrow> unit res" where
  "tick c =
     (case fault c of
        None \<Rightarrow> Ok () c
      | Some 0 \<Rightarrow> Throw (c\<lparr>fault := None\<rparr>)
      | Some (Suc n) \<Rightarrow> Ok () (c\<lparr>fault := Some n\<rparr>))"

text \<open>
  A statement maps the tables to a result and the new tables, or to \<open>None\<close> when the
  statement violates a constraint.
\<close>

definition query :: "(db \<Rightarrow> ('a \<times> db) option) \<Rightarrow> conn \<Rightarrow> 'a res" where
  "query stmt c =
     then_res (tick c) (\<lambda>_ c1.
       case stmt (store c1) of
         None \<Rightarrow> Throw c1
       | Some (r, d) \<Rightarrow> Ok r (c1\<lparr>store := d\<rparr>))"

definition begin_tx :: "conn \<Rightarrow> unit res" where
  "begin_tx c =
     then_res (tick c) (\<lambda>_ c1.
       Ok () (c1\<lparr>snapshot := (case snapshot c1 of None \<Rightarrow> Some (store c1) | Some s \<Rightarrow> Some s)\<rparr>))"

definition commit_tx :: "conn \<Rightarrow> unit res" where
  "commit_tx c = then_res (tick c) (\<lambda>_ c1. Ok () (c1\<lparr>snapshot := None\<rparr>))"

text \<open>\<open>ROLLBACK\<close> in a \<open>catch\<close> block: back to the tables at \<open>BEGIN\<close>, if a transaction is open.\<close>

definition rollback :: "conn \<Rightarrow> conn" where
  "rollback c =
     c\<lparr>store := (case snapshot c of None \<Rightarrow> store c | Some s \<Rightarrow> s), snapshot := None\<rparr>"

text \<open>\<open>pool.connect()\<close> on the committed tables, with the failure the request will meet.\<close>

definition connect :: "db \<Rightarrow> nat option \<Rightarrow> conn" where
  "connect d f = \<lparr>store = d, snapshot = None, fault = f\<rparr>"

section \<open>The SQL statements\<close>

text \<open>\<open>SELECT COUNT(*) FROM usernames\<close>\<close>

definition select_count :: "db \<Rightarrow> (nat \<times> db) option" where
  "select_count d = Some (length (usernames d), d)"

text \<open>\<open>SELECT 1 FROM usernames WHERE username = $1\<close>, read as \<open>rowCount > 0\<close>\<close>

definition select_exists :: "string \<Rightarrow> db \<Rightarrow> (bool \<times> db) option" where
  "select_exists username d = Some (filter (\<lambda>r. fst r = username) (usernames d) \<noteq> [], d)"

text \<open>\<open>SELECT cell_id FROM cells WHERE filled = FALSE FOR UPDATE SKIP LOCKED LIMIT 1\<close>\<close>

definition select_free_cell :: "db \<Rightarrow> (nat option \<times> db) option" where
  "select_free_cell d =
     Some (case filter (\<lambda>c. \<not> filled c) (cells d) of
             [] \<Rightarrow> None
           | c # _ \<Rightarrow> Some (cell_id c), d)"

text \<open>
  Modelled from the spec: the schema of \<open>usernames\<close> is not in the repository; the spec
  gives it as \<open>(username unique, cell_id)\<close>. So an \<open>INSERT\<close> of a user name that is in
  the table violates the constraint, and \<open>ON CONFLICT DO NOTHING\<close> turns that into an
  insert of no row.
\<close>

definition insert_username :: "string \<Rightarrow> nat \<Rightarrow> db \<Rightarrow> (unit \<times> db) option" where
  "insert_username username cellId d =
     (if username \<in> fst ` set (usernames d) then None
      else Some ((), d\<lparr>usernames := usernames d @ [(username, cellId)]\<rparr>))"

definition insert_username_do_nothing :: "string \<Rightarrow> nat \<Rightarrow> db \<Rightarrow> (unit \<times> db) option" where
  "insert_username_do_nothing username cellId d =
     (if username \<in> fst ` set (usernames d) then Some ((), d)
      else Some ((), d\<lparr>usernames := usernames d @ [(username, cellId)]\<rparr>))"

text \<open>\<open>UPDATE cells SET filled = TRUE WHERE cell_id = $1\<close>\<close>

definition update_filled :: "nat \<Rightarrow> db \<Rightarrow> (unit \<times> db) option" where
  "update_filled cellId d =
     Some ((), d\<lparr>cells := map (\<lambda>c. if cell_id c = cellId then c\<lparr>filled := True\<rparr> else c) (cells d)\<rparr>)"

text \<open>\<open>UPDATE cells SET is_mask = TRUE WHERE x = $1 AND y = $2\<close>\<close>

definition update_is_mask :: "nat \<Rightarrow> nat \<Rightarrow> db \<Rightarrow> (unit \<times> db) option" where
  "update_is_mask px py d =
     Some ((), d\<lparr>cells := map (\<lambda>c. if cell_x c = px \<and> cell_y c = py then c\<lparr>is_mask := True\<rparr> else c)
                              (cells d)\<rparr>)"

text \<open>\<open>SELECT username FROM usernames WHERE username = ANY($1)\<close>\<close>

definition select_any :: "string list \<Rightarrow> db \<Rightarrow> (string list \<times> db) option" where
  "select_any list d = Some (map fst (filter (\<lambda>r. fst r \<in> set list) (usernames d)), d)"

section \<open>\<open>adminAuth\<close>\<close>

text \<open>
  The header \<open>x-admin-secret\<close> and the environment variable \<open>ADMIN_SECRET\<close> are each a
  string or \<open>undefined\<close>. \<open>!secret\<close> holds of \<open>undefined\<close> and of the empty string;
  \<open>!==\<close> compares without conversion. The result is whether \<open>next()\<close> is called;
  otherwise the response is 401.
\<close>

definition adminAuth :: "string option \<Rightarrow> string option \<Rightarrow> bool" where
  "adminAuth secret ADMIN_SECRET =
     (if (secret = None \<or> secret = Some []) \<or> secret \<noteq> ADMIN_SECRET then False else True)"

section \<open>\<open>POST /admin/upload\<close>\<close>

datatype signal = Added | Skipped | Stop

text \<open>
  The responses of the admin routes: the three error statuses, \<open>{success, added, skipped}\<close>,
  \<open>{success, total: 0}\<close>, the preview's
  \<open>{success, total_in_file, already_exists, ready_to_insert, usernames}\<close>, and no response
  at all (a rejection outside any \<open>try\<close>).
\<close>

datatype response =
    Status400
  | Status401
  | Status500
  | Json200 nat nat
  | PreviewEmpty
  | PreviewReport nat nat nat "string list"
  | NoResponse

text \<open>The transaction of one user name: \<open>BEGIN\<close>, \<open>INSERT\<close>, \<open>UPDATE\<close>, \<open>COMMIT\<close>.\<close>

definition upload_tx :: "string \<Rightarrow> nat \<Rightarrow> conn \<Rightarrow> signal res" where
  "upload_tx username cellId c =
     then_res (begin_tx c) (\<lambda>_ c1.
     then_res (query (insert_username_do_nothing username cellId) c1) (\<lambda>_ c2.
     then_res (query (update_filled cellId) c2) (\<lambda>_ c3.
     then_res (commit_tx c3) (\<lambda>_ c4.
     Ok Added c4))))"

text \<open>
  The body of the loop. \<open>Added\<close> is \<open>added++\<close>, \<open>Skipped\<close> is \<open>skipped++; continue\<close>,
  \<open>Stop\<close> is \<open>break\<close>.
\<close>

definition upload_body :: "string \<Rightarrow> conn \<Rightarrow> signal res" where
  "upload_body name c =
     (let username = trim_lower name in
      if username = [] then Ok Skipped c
      else
        then_res (query (select_exists username) c) (\<lambda>found c1.
          if found then Ok Skipped c1
          else
            then_res (query select_free_cell c1) (\<lambda>freeCell c2.
              case freeCell of
                None \<Rightarrow> Ok Stop c2
              | Some cellId \<Rightarrow> upload_tx username cellId c2)))"

fun upload_loop :: "string list \<Rightarrow> nat \<Rightarrow> nat \<Rightarrow> conn \<Rightarrow> (nat \<times> nat) res" where
  "upload_loop [] added skipped c = Ok (added, skipped) c"
| "upload_loop (name # rest) added skipped c =
     (case upload_body name c of
        Throw c' \<Rightarrow> Throw c'
      | Ok Added c' \<Rightarrow> upload_loop rest (added + 1) skipped c'
      | Ok Skipped c' \<Rightarrow> upload_loop rest added (skipped + 1) c'
      | Ok Stop c' \<Rightarrow> Ok (added, skipped) c')"

text \<open>
  The request body is \<open>None\<close> when \<open>usernames\<close> is not an array, else the array, whose
  elements are strings.
\<close>

definition admin_upload :: "string list option \<Rightarrow> conn \<Rightarrow> response \<times> conn" where
  "admin_upload body c =
     (case body of
        None \<Rightarrow> (Status400, c)
      | Some [] \<Rightarrow> (Status400, c)
      | Some names \<Rightarrow>
          (case upload_loop names 0 0 c of
             Ok (added, skipped) c' \<Rightarrow> (Json200 added skipped, c')
           | Throw c' \<Rightarrow> (Status500, rollback c')))"

section \<open>\<open>processUsernamesUpload\<close> and \<open>POST /admin/upload-confirm\<close>\<close>

definition confirm_body :: "nat \<Rightarrow> string \<Rightarrow> conn \<Rightarrow> signal res" where
  "confirm_body currentCount raw c =
     (if currentCount \<ge> SEASON_1_LIMIT then Ok Stop c
      else
        let username = trim_lower raw in
        if username = [] then Ok Skipped c
        else
          then_res (query (select_exists username) c) (\<lambda>found c1.
            if found then Ok Skipped c1
            else
              then_res (query select_free_cell c1) (\<lambda>cellResult c2.
                case cellResult of
                  None \<Rightarrow> Ok Stop c2
                | Some cellId \<Rightarrow>
                    then_res (query (insert_username username cellId) c2) (\<lambda>_ c3.
                    then_res (query (update_filled cellId) c3) (\<lambda>_ c4.
                    Ok Added c4)))))"

fun confirm_loop :: "string list \<Rightarrow> nat \<Rightarrow> nat \<Rightarrow> nat \<Rightarrow> conn \<Rightarrow> (nat \<times> nat) res" where
  "confirm_loop [] currentCount added skipped c = Ok (added, skipped) c"
| "confirm_loop (raw # rest) currentCount added skipped c =
     (case confirm_body currentCount raw c of
        Throw c' \<Rightarrow> Throw c'
      | Ok Added c' \<Rightarrow> confirm_loop rest (currentCount + 1) (added + 1) skipped c'
      | Ok Skipped c' \<Rightarrow> confirm_loop rest currentCount added (skipped + 1) c'
      | Ok Stop c' \<Rightarrow> Ok (added, skipped) c')"

definition processUsernamesUpload :: "string list \<Rightarrow> conn \<Rightarrow> (nat \<times> nat) res" where
  "processUsernamesUpload names c =
     then_res (query select_count c) (\<lambda>currentCount c1.
       confirm_loop names currentCount 0 0 c1)"

definition admin_upload_confirm :: "string list option \<Rightarrow> conn \<Rightarrow> response \<times> conn" where
  "admin_upload_confirm body c =
     (case body of
        None \<Rightarrow> (Status400, c)
      | Some [] \<Rightarrow> (Status400, c)
      | Some names \<Rightarrow>
          (case then_res (begin_tx c) (\<lambda>_ c1.
                then_res (processUsernamesUpload names c1) (\<lambda>result c2.
                then_res (commit_tx c2) (\<lambda>_ c3.
                Ok result c3)))
           of
             Ok (added, skipped) c' \<Rightarrow> (Json200 added skipped, c')
           | Throw c' \<Rightarrow> (Status500, rollback c')))"

section \<open>\<open>POST /admin/upload-preview\<close>\<close>

text \<open>
  The uploaded file is \<open>None\<close> when the request has none, else the first column of its
  rows as the CSV parser delivers them: \<open>Object.values(row)[0]\<close>, \<open>None\<close> for
  \<open>undefined\<close>. A JavaScript \<open>Set\<close> is the list of its elements in insertion order.
\<close>

definition set_add :: "'a \<Rightarrow> 'a list \<Rightarrow> 'a list" where
  "set_add v s = (if v \<in> set s then s else s @ [v])"

fun on_data :: "string option list \<Rightarrow> string list \<Rightarrow> string list" where
  "on_data [] names = names"
| "on_data (row # rows) names =
     (case row of
        None \<Rightarrow> on_data rows names
      | Some name \<Rightarrow>
          if name \<noteq> [] then on_data rows (set_add (trim_lower name) names)
          else on_data rows names)"

definition admin_upload_preview :: "string option list option \<Rightarrow> conn \<Rightarrow> response \<times> conn" where
  "admin_upload_preview file c =
     (case file of
        None \<Rightarrow> (Status400, c)
      | Some rows \<Rightarrow>
          (let list = on_data rows [] in
           if length list = 0 then (PreviewEmpty, c)
           else
             (case query (select_any list) c of
                Throw c' \<Rightarrow> (NoResponse, c')
              | Ok existing c' \<Rightarrow>
                  (let newOnes = filter (\<lambda>u. u \<notin> set existing) list in
                   (PreviewReport (length list) (length existing) (length newOnes) newOnes, c')))))"

section \<open>The admin routes: \<open>adminAuth\<close> before the handler\<close>

definition route_upload ::
  "string option \<Rightarrow> string option \<Rightarrow> string list option \<Rightarrow> conn \<Rightarrow> response \<times> conn" where
  "route_upload secret ADMIN_SECRET body c =
     (if adminAuth secret ADMIN_SECRET then admin_upload body c else (Status401, c))"

definition route_upload_preview ::
  "string option \<Rightarrow> string option \<Rightarrow> string option list option \<Rightarrow> conn \<Rightarrow> response \<times> conn" where
  "route_upload_preview secret ADMIN_SECRET file c =
     (if adminAuth secret ADMIN_SECRET then admin_upload_preview file c else (Status401, c))"

definition route_upload_confirm ::
  "string option \<Rightarrow> string option \<Rightarrow> string list option \<Rightarrow> conn \<Rightarrow> response \<times> conn" where
  "route_upload_confirm secret ADMIN_SECRET body c =
     (if adminAuth secret ADMIN_SECRET then admin_upload_confirm body c else (Status401, c))"

section \<open>\<open>applyMask\<close>\<close>

text \<open>
  \<open>data\<close> is the raw grey-scale buffer. \<open>data[idx]\<close> beyond its end is \<open>undefined\<close>,
  and \<open>undefined < THRESHOLD\<close> is false.
\<close>

definition dark :: "8 word list \<Rightarrow> nat \<Rightarrow> bool" where
  "dark data idx = (idx < length data \<and> unat (data ! idx) < THRESHOLD)"

fun mask_row :: "8 word list \<Rightarrow> nat \<Rightarrow> nat list \<Rightarrow> nat \<Rightarrow> conn \<Rightarrow> nat res" where
  "mask_row data py [] count c = Ok count c"
| "mask_row data py (px # pxs) count c =
     (let idx = py * GRID_SIZE + px in
      if dark data idx then
        (case query (update_is_mask (px + 1) (GRID_SIZE - py)) c of
           Throw c' \<Rightarrow> Throw c'
         | Ok _ c' \<Rightarrow> mask_row data py pxs (count + 1) c')
      else mask_row data py pxs count c)"

fun mask_rows :: "8 word list \<Rightarrow> nat list \<Rightarrow> nat \<Rightarrow> conn \<Rightarrow> nat res" where
  "mask_rows data [] count c = Ok count c"
| "mask_rows data (py # pys) count c =
     (case mask_row data py [0..<GRID_SIZE] count c of
        Throw c' \<Rightarrow> Throw c'
      | Ok count' c' \<Rightarrow> mask_rows data pys count' c')"

definition applyMask :: "8 word list \<Rightarrow> conn \<Rightarrow> nat res" where
  "applyMask data c = mask_rows data [0..<GRID_SIZE] 0 c"

section \<open>Auxiliary notions for the statements\<close>

text \<open>
  The cells that the mask projection reaches from a buffer: the cell at \<open>(px + 1, GRID_SIZE - py)\<close>
  for a dark pixel \<open>(px, py)\<close> of the image; \<open>hit\<close> is the same for the rows and columns
  walked so far, and \<open>mark\<close> sets \<open>is_mask\<close> on the cells of a predicate.
\<close>

definition projected :: "8 word list \<Rightarrow> cell \<Rightarrow> bool" where
  "projected data cl \<longleftrightarrow>
     (\<exists>px<GRID_SIZE. \<exists>py<GRID_SIZE.
        dark data (py * GRID_SIZE + px) \<and> cell_x cl = px + 1 \<and> cell_y cl = GRID_SIZE - py)"

definition mark :: "(cell \<Rightarrow> bool) \<Rightarrow> db \<Rightarrow> db" where
  "mark P d = d\<lparr>cells := map (\<lambda>cl. if P cl then cl\<lparr>is_mask := True\<rparr> else cl) (cells d)\<rparr>"

definition hit :: "8 word list \<Rightarrow> nat set \<Rightarrow> nat set \<Rightarrow> cell \<Rightarrow> bool" where
  "hit data pys pxs cl \<longleftrightarrow>
     (\<exists>py\<in>pys. \<exists>px\<in>pxs.
        dark data (py * GRID_SIZE + px) \<and> cell_x cl = px + 1 \<and> cell_y cl = GRID_SIZE - py)"

text \<open>
  The free cells in table order, and the tables after a claim of \<open>username\<close> on the cell
  \<open>cellId\<close>: the \<open>INSERT\<close> followed by the \<open>UPDATE\<close>.
\<close>

definition free_cells :: "db \<Rightarrow> cell list" where
  "free_cells d = filter (\<lambda>c. \<not> filled c) (cells d)"

definition allocate :: "string \<Rightarrow> nat \<Rightarrow> db \<Rightarrow> db" where
  "allocate username cellId d =
     d\<lparr>usernames := usernames d @ [(username, cellId)],
       cells := map (\<lambda>c. if cell_id c = cellId then c\<lparr>filled := True\<rparr> else c) (cells d)\<rparr>"

text \<open>
  The tables as the other clients see them: the uncommitted work of an open transaction
  is not visible.
\<close>

definition committed :: "conn \<Rightarrow> db" where
  "committed c = (case snapshot c of None \<Rightarrow> store c | Some s \<Rightarrow> s)"

text \<open>
  The number of claims that reference a cell id and the number of cells that carry it; the
  bijection between filled cells and claims; the primary key of \<open>cells\<close>.
\<close>

definition claims_on :: "db \<Rightarrow> nat \<Rightarrow> nat" where
  "claims_on d i = length (filter (\<lambda>r. snd r = i) (usernames d))"

definition cells_with :: "db \<Rightarrow> nat \<Rightarrow> nat" where
  "cells_with d i = length (filter (\<lambda>c. cell_id c = i) (cells d))"

definition cell_claim_bijection :: "db \<Rightarrow> bool" where
  "cell_claim_bijection d \<longleftrightarrow>
     (\<forall>c\<in>set (cells d). filled c \<longleftrightarrow> claims_on d (cell_id c) = 1)
     \<and> (\<forall>r\<in>set (usernames d). cells_with d (snd r) = 1 \<and> claims_on d (snd r) = 1)"

definition cell_ids_unique :: "db \<Rightarrow> bool" where
  "cell_ids_unique d \<longleftrightarrow> distinct (map cell_id (cells d))"

text \<open>
  A sequence of requests to the two allocating routes, one after the other, each on a
  fresh client and each with its own storage failure or none.
\<close>

datatype call =
    Upload "string list option" "nat option"
  | Confirm "string list option" "nat option"

fun run_call :: "call \<Rightarrow> db \<Rightarrow> db" where
  "run_call (Upload body f) d = committed (snd (admin_upload body (connect d f)))"
| "run_call (Confirm body f) d = committed (snd (admin_upload_confirm body (connect d f)))"

fun run_calls :: "call list \<Rightarrow> db \<Rightarrow> db" where
  "run_calls [] d = d"
| "run_calls (k # ks) d = run_calls ks (run_call k d)"

text \<open>A small grid for the examples: two free cells, no claim.\<close>

definition grid2 :: db where
  "grid2 = \<lparr>cells = [\<lparr>cell_id = 1, cell_x = 1, cell_y = 1, filled = False, is_mask = False\<rparr>,
                      \<lparr>cell_id = 2, cell_x = 2, cell_y = 1, filled = False, is_mask = True\<rparr>],
            usernames = []\<rparr>"

text \<open>
  Tables with \<open>n\<close> claims \<open>u\<close>, \<open>ux\<close>, \<open>uxx\<close>, ... on the filled cells \<open>0..n-1\<close>, followed by
  \<open>k\<close> free cells.
\<close>

definition seeded_cell :: "nat \<Rightarrow> nat \<Rightarrow> cell" where
  "seeded_cell n i =
     \<lparr>cell_id = i, cell_x = i mod GRID_SIZE + 1, cell_y = i div GRID_SIZE + 1,
      filled = (i < n), is_mask = False\<rparr>"

definition seeded :: "nat \<Rightarrow> nat \<Rightarrow> db" where
  "seeded n k =
     \<lparr>cells = map (seeded_cell n) [0..<n + k],
      usernames = map (\<lambda>i. (CHR ''u'' # replicate i (CHR ''x''), i)) [0..<n]\<rparr>"

text \<open>
  The small grid after another client has claimed \<open>ann\<close> on cell 2, and the same tables
  with cell 1 filled as well.
\<close>

definition ann_on_2 :: db where
  "ann_on_2 = \<lparr>cells = [\<lparr>cell_id = 1, cell_x = 1, cell_y = 1, filled = False, is_mask = False\<rparr>,
                         \<lparr>cell_id = 2, cell_x = 2, cell_y = 1, filled = True, is_mask = True\<rparr>],
               usernames = [(''ann'', 2)]\<rparr>"

definition ann_on_2_leak :: db where
  "ann_on_2_leak = \<lparr>cells = [\<lparr>cell_id = 1, cell_x = 1, cell_y = 1, filled = True, is_mask = False\<rparr>,
                         \<lparr>cell_id = 2, cell_x = 2, cell_y = 1, filled = True, is_mask = True\<rparr>],
               usernames = [(''ann'', 2)]\<rparr>"

section \<open>Basic facts about the client\<close>

lemma then_res_Throw: "then_res (Throw c) f = Throw c"
  by (simp add: then_res_def)

lemma then_res_Ok: "then_res (Ok r c) f = f r c"
  by (simp add: then_res_def)

lemma tick_nofault: "fault c = None \<Longrightarrow> tick c = Ok () c"
  by (simp add: tick_def)

lemma query_nofault:
  "fault c = None \<Longrightarrow>
   query stmt c = (case stmt (store c) of None \<Rightarrow> Throw c | Some (r, d) \<Rightarrow> Ok r (c\<lparr>store := d\<rparr>))"
  by (simp add: query_def tick_nofault then_res_Ok)

lemma begin_tx_nofault:
  "fault c = None \<Longrightarrow>
   begin_tx c = Ok () (c\<lparr>snapshot := (case snapshot c of None \<Rightarrow> Some (store c) | Some s \<Rightarrow> Some s)\<rparr>)"
  by (simp add: begin_tx_def tick_nofault then_res_Ok)

lemma commit_tx_nofault: "fault c = None \<Longrightarrow> commit_tx c = Ok () (c\<lparr>snapshot := None\<rparr>)"
  by (simp add: commit_tx_def tick_nofault then_res_Ok)

lemma tick_cases:
  "(\<exists>c'. tick c = Throw c' \<and> store c' = store c \<and> snapshot c' = snapshot c)
   \<or> (\<exists>c'. tick c = Ok () c' \<and> store c' = store c \<and> snapshot c' = snapshot c
         \<and> (fault c = None \<longrightarrow> fault c' = None))"
  by (auto simp: tick_def split: option.splits nat.splits)

lemma query_Throw:
  "query stmt c = Throw c' \<Longrightarrow> store c' = store c \<and> snapshot c' = snapshot c"
  using tick_cases [of c]
  by (auto simp: query_def then_res_def split: option.splits)

lemma query_Ok:
  "query stmt c = Ok r c' \<Longrightarrow> stmt (store c) = Some (r, store c') \<and> snapshot c' = snapshot c"
  using tick_cases [of c]
  by (auto simp: query_def then_res_def split: option.splits)

lemma begin_tx_Throw:
  "begin_tx c = Throw c' \<Longrightarrow> store c' = store c \<and> snapshot c' = snapshot c"
  using tick_cases [of c]
  by (auto simp: begin_tx_def then_res_def split: option.splits)

lemma begin_tx_Ok:
  "begin_tx c = Ok u c' \<Longrightarrow>
   store c' = store c \<and> snapshot c' = (case snapshot c of None \<Rightarrow> Some (store c) | Some s \<Rightarrow> Some s)"
  using tick_cases [of c]
  by (auto simp: begin_tx_def then_res_def split: option.splits)

lemma commit_tx_Throw:
  "commit_tx c = Throw c' \<Longrightarrow> store c' = store c \<and> snapshot c' = snapshot c"
  using tick_cases [of c]
  by (auto simp: commit_tx_def then_res_def)

lemma commit_tx_Ok:
  "commit_tx c = Ok u c' \<Longrightarrow> store c' = store c \<and> snapshot c' = None"
  using tick_cases [of c]
  by (auto simp: commit_tx_def then_res_def)

subsection \<open>The preview's set of names\<close>

lemma set_add_set: "set (set_add v s) = insert v (set s)"
  by (auto simp: set_add_def)

lemma set_add_distinct: "distinct s \<Longrightarrow> distinct (set_add v s)"
  by (auto simp: set_add_def)

lemma on_data_distinct: "distinct names \<Longrightarrow> distinct (on_data rows names)"
  by (induction rows names rule: on_data.induct) (auto simp: set_add_distinct split: option.splits)

lemma on_data_set:
  "set (on_data rows names) = set names \<union> trim_lower ` {name. Some name \<in> set rows \<and> name \<noteq> []}"
  by (induction rows names rule: on_data.induct) (auto simp: set_add_set split: option.splits)

lemma preview_store:
  "store (snd (admin_upload_preview upl c)) = store c
   \<and> snapshot (snd (admin_upload_preview upl c)) = snapshot c"
proof (cases upl)
  case None
  then show ?thesis by (simp add: admin_upload_preview_def)
next
  case (Some rows)
  show ?thesis
  proof (cases "query (select_any (on_data rows [])) c")
    case (Throw c')
    from query_Throw [OF this] show ?thesis
      by (simp add: admin_upload_preview_def Some Throw Let_def)
  next
    case (Ok existing c')
    from query_Ok [OF this] show ?thesis
      by (simp add: admin_upload_preview_def Some Ok Let_def select_any_def)
  qed
qed

lemma existing_set:
  "set (map fst (filter (\<lambda>r. fst r \<in> set list) us)) = set list \<inter> fst ` set us"
  by auto

lemma existing_length:
  assumes "distinct (map fst us)" "distinct list"
  shows "length (map fst (filter (\<lambda>r. fst r \<in> set list) us)) = length (filter (\<lambda>u. u \<in> fst ` set us) list)"
proof -
  have d1: "distinct (map fst (filter (\<lambda>r. fst r \<in> set list) us))"
    using assms(1) by (simp add: distinct_map_filter)
  have d2: "distinct (filter (\<lambda>u. u \<in> fst ` set us) list)"
    using assms(2) by simp
  have "set (map fst (filter (\<lambda>r. fst r \<in> set list) us)) = set (filter (\<lambda>u. u \<in> fst ` set us) list)"
    by auto
  then have "card (set (map fst (filter (\<lambda>r. fst r \<in> set list) us))) = card (set (filter (\<lambda>u. u \<in> fst ` set us) list))"
    by simp
  then show ?thesis
    using d1 d2 by (simp only: distinct_card)
qed

section \<open>Mask projection\<close>

lemma mark_none: "(\<And>cl. \<not> P cl) \<Longrightarrow> mark P d = d"
  by (simp add: mark_def)

lemma mark_cong: "(\<And>cl. P cl = Q cl) \<Longrightarrow> mark P d = mark Q d"
  by (simp add: mark_def)

lemma hit_is_mask: "hit data pys pxs (cl\<lparr>is_mask := b\<rparr>) = hit data pys pxs cl"
  by (simp add: hit_def)

lemma mark_hit_mark:
  "mark (hit data pys pxs) (mark Q d) = mark (\<lambda>cl. hit data pys pxs cl \<or> Q cl) d"
  by (auto simp: mark_def hit_is_mask)

lemma update_is_mask_mark:
  "update_is_mask px py d = Some ((), mark (\<lambda>cl. cell_x cl = px \<and> cell_y cl = py) d)"
  by (simp add: update_is_mask_def mark_def)

lemma conn_store_same: "c\<lparr>store := store c\<rparr> = c"
  by simp

lemma mask_row_nofault:
  "fault c = None \<Longrightarrow>
   \<exists>n. mask_row data py pxs count c = Ok n (c\<lparr>store := mark (hit data {py} (set pxs)) (store c)\<rparr>)"
proof (induction pxs arbitrary: count c)
  case Nil
  then show ?case by (simp add: hit_def mark_none)
next
  case (Cons px pxs)
  show ?case
  proof (cases "dark data (py * GRID_SIZE + px)")
    case True
    let ?c1 = "c\<lparr>store := mark (\<lambda>cl. cell_x cl = px + 1 \<and> cell_y cl = GRID_SIZE - py) (store c)\<rparr>"
    have q: "query (update_is_mask (px + 1) (GRID_SIZE - py)) c = Ok () ?c1"
      using Cons.prems by (simp add: query_nofault update_is_mask_mark)
    have f1: "fault ?c1 = None" using Cons.prems by simp
    from Cons.IH [OF f1, of "count + 1"] obtain n where
      n: "mask_row data py pxs (count + 1) ?c1 = Ok n (?c1\<lparr>store := mark (hit data {py} (set pxs)) (store ?c1)\<rparr>)"
      by blast
    have e: "mark (hit data {py} (set pxs)) (store ?c1) = mark (hit data {py} (set (px # pxs))) (store c)"
      using True by (simp add: mark_hit_mark) (rule mark_cong, auto simp: hit_def)
    show ?thesis
      using True q n e by simp
  next
    case False
    from Cons.IH [OF Cons.prems, of count] obtain n where
      n: "mask_row data py pxs count c = Ok n (c\<lparr>store := mark (hit data {py} (set pxs)) (store c)\<rparr>)"
      by blast
    have e: "mark (hit data {py} (set pxs)) (store c) = mark (hit data {py} (set (px # pxs))) (store c)"
      using False by (intro mark_cong) (auto simp: hit_def)
    show ?thesis
      using False n e by simp
  qed
qed

lemma mask_rows_nofault:
  "fault c = None \<Longrightarrow>
   \<exists>n. mask_rows data pys count c = Ok n (c\<lparr>store := mark (hit data (set pys) {0..<GRID_SIZE}) (store c)\<rparr>)"
proof (induction pys arbitrary: count c)
  case Nil
  then show ?case by (simp add: hit_def mark_none)
next
  case (Cons py pys)
  let ?c1 = "c\<lparr>store := mark (hit data {py} {0..<GRID_SIZE}) (store c)\<rparr>"
  from mask_row_nofault [OF Cons.prems, of data py "[0..<GRID_SIZE]" count] obtain n1 where
    n1: "mask_row data py [0..<GRID_SIZE] count c = Ok n1 ?c1"
    by auto
  have f1: "fault ?c1 = None" using Cons.prems by simp
  from Cons.IH [OF f1, of n1] obtain n where
    n: "mask_rows data pys n1 ?c1 = Ok n (?c1\<lparr>store := mark (hit data (set pys) {0..<GRID_SIZE}) (store ?c1)\<rparr>)"
    by blast
  have e: "mark (hit data (set pys) {0..<GRID_SIZE}) (store ?c1)
           = mark (hit data (set (py # pys)) {0..<GRID_SIZE}) (store c)"
    by (simp add: mark_hit_mark) (rule mark_cong, auto simp: hit_def)
  show ?case
    using n1 n e by simp
qed

lemma hit_projected: "hit data {0..<GRID_SIZE} {0..<GRID_SIZE} cl = projected data cl"
  unfolding hit_def projected_def Bex_def by auto

lemma projected_black:
  "projected (replicate (GRID_SIZE * GRID_SIZE) 0) cl \<longleftrightarrow>
     1 \<le> cell_x cl \<and> cell_x cl \<le> GRID_SIZE \<and> 1 \<le> cell_y cl \<and> cell_y cl \<le> GRID_SIZE"
proof
  assume "projected (replicate (GRID_SIZE * GRID_SIZE) 0) cl"
  then show "1 \<le> cell_x cl \<and> cell_x cl \<le> GRID_SIZE \<and> 1 \<le> cell_y cl \<and> cell_y cl \<le> GRID_SIZE"
    by (auto simp: projected_def)
next
  assume a: "1 \<le> cell_x cl \<and> cell_x cl \<le> GRID_SIZE \<and> 1 \<le> cell_y cl \<and> cell_y cl \<le> GRID_SIZE"
  let ?px = "cell_x cl - 1" and ?py = "GRID_SIZE - cell_y cl"
  have b: "?px < GRID_SIZE" "?py < GRID_SIZE" "cell_x cl = ?px + 1" "cell_y cl = GRID_SIZE - ?py"
    using a by auto
  have "?py * GRID_SIZE + ?px < GRID_SIZE * GRID_SIZE"
    using b(1,2) unfolding GRID_SIZE_def by linarith
  then have "dark (replicate (GRID_SIZE * GRID_SIZE) 0) (?py * GRID_SIZE + ?px)"
    by (simp add: dark_def THRESHOLD_def)
  with b show "projected (replicate (GRID_SIZE * GRID_SIZE) 0) cl"
    unfolding projected_def by blast
qed

lemma projected_white: "\<not> projected (replicate (GRID_SIZE * GRID_SIZE) 255) cl"
  by (auto simp: projected_def dark_def THRESHOLD_def)

text \<open>
  Claim C8. Without a storage failure \<open>applyMask\<close> returns, and it has set \<open>is_mask\<close> on
  exactly the cells at \<open>(px + 1, GRID_SIZE - py)\<close> for the pixels \<open>(px, py)\<close> of the
  image whose brightness is below \<open>THRESHOLD\<close>; every other field and row is as before.
  For an all-black buffer these are all cells with both coordinates in \<open>1..GRID_SIZE\<close>,
  for an all-white buffer none.
\<close>

theorem applyMask_projection:
  "fault c = None \<Longrightarrow>
   (\<exists>n. applyMask data c =
      Ok n (c\<lparr>store := (store c)\<lparr>cells :=
         map (\<lambda>cl. if projected data cl then cl\<lparr>is_mask := True\<rparr> else cl) (cells (store c))\<rparr>\<rparr>))
   \<and> (\<forall>cl. projected (replicate (GRID_SIZE * GRID_SIZE) 0) cl \<longleftrightarrow>
         1 \<le> cell_x cl \<and> cell_x cl \<le> GRID_SIZE \<and> 1 \<le> cell_y cl \<and> cell_y cl \<le> GRID_SIZE)
   \<and> (\<forall>cl. \<not> projected (replicate (GRID_SIZE * GRID_SIZE) 255) cl)"
proof -
  assume f: "fault c = None"
  from mask_rows_nofault [OF f, of data "[0..<GRID_SIZE]" 0] obtain n where
    "applyMask data c = Ok n (c\<lparr>store := mark (hit data {0..<GRID_SIZE} {0..<GRID_SIZE}) (store c)\<rparr>)"
    by (auto simp: applyMask_def)
  then have "applyMask data c =
      Ok n (c\<lparr>store := (store c)\<lparr>cells :=
         map (\<lambda>cl. if projected data cl then cl\<lparr>is_mask := True\<rparr> else cl) (cells (store c))\<rparr>\<rparr>)"
    by (simp add: mark_def hit_projected [abs_def])
  then show ?thesis
    using projected_black projected_white by blast
qed

theorem applyMask_projection_witness:
  "fault (connect \<lparr>cells = [\<lparr>cell_id = 7, cell_x = 2, cell_y = 256, filled = False, is_mask = False\<rparr>],
                   usernames = []\<rparr> None) = None
   \<and> (\<exists>n. applyMask (replicate (GRID_SIZE * GRID_SIZE) 0)
            (connect \<lparr>cells = [\<lparr>cell_id = 7, cell_x = 2, cell_y = 256, filled = False, is_mask = False\<rparr>],
                      usernames = []\<rparr> None)
          = Ok n (connect \<lparr>cells = [\<lparr>cell_id = 7, cell_x = 2, cell_y = 256, filled = False, is_mask = True\<rparr>],
                           usernames = []\<rparr> None))"
proof -
  let ?cl = "\<lparr>cell_id = 7, cell_x = 2, cell_y = 256, filled = False, is_mask = False\<rparr>"
  let ?c = "connect \<lparr>cells = [?cl], usernames = []\<rparr> None"
  have f: "fault ?c = None"
    by (simp add: connect_def)
  have p: "projected (replicate (GRID_SIZE * GRID_SIZE) 0) ?cl"
    using applyMask_projection [OF f, of "replicate (GRID_SIZE * GRID_SIZE) 0"]
    by (simp add: GRID_SIZE_def)
  from applyMask_projection [OF f, of "replicate (GRID_SIZE * GRID_SIZE) 0"]
  obtain n where "applyMask (replicate (GRID_SIZE * GRID_SIZE) 0) ?c =
      Ok n (?c\<lparr>store := (store ?c)\<lparr>cells :=
         map (\<lambda>cl. if projected (replicate (GRID_SIZE * GRID_SIZE) 0) cl then cl\<lparr>is_mask := True\<rparr> else cl)
           (cells (store ?c))\<rparr>\<rparr>)"
    by blast
  then show ?thesis
    using f by (auto simp: connect_def p)
qed

section \<open>The preview\<close>

text \<open>
  Claim C7. The preview leaves the tables of the client as they are, whatever the file and
  whether the query fails or not. The names it works on are the trimmed, lower-cased
  first columns of the rows, each once. Without a storage failure, on a ledger with
  unique user names, it reports how many of them are in the ledger (\<open>already_exists\<close>),
  how many are not (\<open>ready_to_insert\<close>), and the list of those that are not.
\<close>

theorem preview_partitions:
  "store (snd (admin_upload_preview upl c)) = store c
   \<and> snapshot (snd (admin_upload_preview upl c)) = snapshot c
   \<and> distinct (on_data rows [])
   \<and> set (on_data rows []) = trim_lower ` {name. Some name \<in> set rows \<and> name \<noteq> []}
   \<and> (fault c = None \<and> distinct (map fst (usernames (store c))) \<and> on_data rows [] \<noteq> [] \<longrightarrow>
        fst (admin_upload_preview (Some rows) c) =
          PreviewReport (length (on_data rows []))
            (length (filter (\<lambda>u. u \<in> fst ` set (usernames (store c))) (on_data rows [])))
            (length (filter (\<lambda>u. u \<notin> fst ` set (usernames (store c))) (on_data rows [])))
            (filter (\<lambda>u. u \<notin> fst ` set (usernames (store c))) (on_data rows [])))"
proof -
  let ?list = "on_data rows []"
  let ?us = "usernames (store c)"
  have d: "distinct ?list"
    by (rule on_data_distinct) simp
  have s: "set ?list = trim_lower ` {name. Some name \<in> set rows \<and> name \<noteq> []}"
    by (simp add: on_data_set)
  have r: "fst (admin_upload_preview (Some rows) c) =
          PreviewReport (length ?list)
            (length (filter (\<lambda>u. u \<in> fst ` set ?us) ?list))
            (length (filter (\<lambda>u. u \<notin> fst ` set ?us) ?list))
            (filter (\<lambda>u. u \<notin> fst ` set ?us) ?list)"
    if f: "fault c = None" and u: "distinct (map fst ?us)" and ne: "?list \<noteq> []"
  proof -
    let ?existing = "map fst (filter (\<lambda>r. fst r \<in> set ?list) ?us)"
    have q: "query (select_any ?list) c = Ok ?existing c"
      using f by (simp add: query_nofault select_any_def)
    have n: "filter (\<lambda>u. u \<notin> set ?existing) ?list = filter (\<lambda>u. u \<notin> fst ` set ?us) ?list"
      by (rule filter_cong) auto
    have l: "length (filter (\<lambda>r. fst r \<in> set ?list) ?us)
             = length (filter (\<lambda>u. u \<in> fst ` set ?us) ?list)"
      using existing_length [OF u d] by simp
    show ?thesis
      using ne by (simp add: admin_upload_preview_def Let_def q n l del: set_map map_map)
  qed
  show ?thesis
    using preview_store [of upl c] d s r by blast
qed

theorem preview_partitions_witness:
  "admin_upload_preview (Some [Some ''  Alice '', Some ''BOB'', None, Some ''alice'', Some ''''])
     (connect \<lparr>cells = [], usernames = [(''bob'', 1)]\<rparr> None)
   = (PreviewReport 2 1 1 [''alice''], connect \<lparr>cells = [], usernames = [(''bob'', 1)]\<rparr> None)"
proof -
  let ?rows = "[Some ''  Alice '', Some ''BOB'', None, Some ''alice'', Some '''']"
  let ?c = "connect \<lparr>cells = [], usernames = [(''bob'', 1)]\<rparr> None"
  have od: "on_data ?rows [] = [''alice'', ''bob'']"
    by code_simp
  have "fst (admin_upload_preview (Some ?rows) ?c) = PreviewReport 2 1 1 [''alice'']"
    using preview_partitions [of "Some ?rows" ?c ?rows] unfolding od
    by (simp add: connect_def)
  moreover have "store (snd (admin_upload_preview (Some ?rows) ?c)) = store ?c
     \<and> snapshot (snd (admin_upload_preview (Some ?rows) ?c)) = snapshot ?c"
    using preview_partitions [of "Some ?rows" ?c ?rows] by blast
  moreover have "fault (snd (admin_upload_preview (Some ?rows) ?c)) = None"
    by (simp add: admin_upload_preview_def od Let_def query_nofault connect_def select_any_def)
  ultimately show ?thesis
    by (cases "admin_upload_preview (Some ?rows) ?c") (auto simp: connect_def)
qed

section \<open>The allocation paths, candidate by candidate\<close>

subsection \<open>The statements on the tables\<close>

lemma select_exists_iff:
  "select_exists u d = Some (u \<in> fst ` set (usernames d), d)"
proof -
  have "(filter (\<lambda>r. fst r = u) (usernames d) \<noteq> []) = (u \<in> fst ` set (usernames d))"
    by (induction "usernames d") (auto simp: filter_empty_conv)
  then show ?thesis by (simp add: select_exists_def)
qed

lemma select_free_cell_eq:
  "select_free_cell d = Some (case free_cells d of [] \<Rightarrow> None | cl # _ \<Rightarrow> Some (cell_id cl), d)"
  by (simp add: select_free_cell_def free_cells_def)

lemma insert_then_update:
  "u \<notin> fst ` set (usernames d) \<Longrightarrow> insert_username u i d = Some ((), d1) \<Longrightarrow>
   update_filled i d1 = Some ((), d2) \<Longrightarrow> d2 = allocate u i d"
  by (auto simp: insert_username_def update_filled_def allocate_def)

lemma insert_do_nothing_then_update:
  "u \<notin> fst ` set (usernames d) \<Longrightarrow> insert_username_do_nothing u i d = Some ((), d1) \<Longrightarrow>
   update_filled i d1 = Some ((), d2) \<Longrightarrow> d2 = allocate u i d"
  by (auto simp: insert_username_do_nothing_def update_filled_def allocate_def)

lemma rollback_simps:
  "store (rollback c) = (case snapshot c of None \<Rightarrow> store c | Some s \<Rightarrow> s)"
  "snapshot (rollback c) = None"
  "fault (rollback c) = fault c"
  by (simp_all add: rollback_def)

subsection \<open>One candidate of \<open>/admin/upload\<close>, with or without a failure\<close>

lemma upload_tx_Throw:
  assumes "upload_tx u i c = Throw c'" "snapshot c = None"
  shows "store (rollback c') = store c"
proof (cases "begin_tx c")
  case (Throw c1)
  with assms begin_tx_Throw [OF Throw] show ?thesis
    by (simp add: upload_tx_def then_res_Throw rollback_simps)
next
  case b: (Ok u1 c1)
  note s1 = begin_tx_Ok [OF b]
  show ?thesis
  proof (cases "query (insert_username_do_nothing u i) c1")
    case (Throw c2)
    with assms b s1 query_Throw [OF Throw] show ?thesis
      by (simp add: upload_tx_def then_res_Throw then_res_Ok rollback_simps)
  next
    case q1: (Ok u2 c2)
    note s2 = query_Ok [OF q1]
    show ?thesis
    proof (cases "query (update_filled i) c2")
      case (Throw c3)
      with assms b s1 q1 s2 query_Throw [OF Throw] show ?thesis
        by (simp add: upload_tx_def then_res_Throw then_res_Ok rollback_simps)
    next
      case q2: (Ok u3 c3)
      note s3 = query_Ok [OF q2]
      show ?thesis
      proof (cases "commit_tx c3")
        case (Throw c4)
        with assms b s1 q1 s2 q2 s3 commit_tx_Throw [OF Throw] show ?thesis
          by (simp add: upload_tx_def then_res_Throw then_res_Ok rollback_simps)
      next
        case (Ok u4 c4)
        with assms b q1 q2 show ?thesis
          by (simp add: upload_tx_def then_res_Ok)
      qed
    qed
  qed
qed

lemma upload_tx_Ok:
  assumes "upload_tx u i c = Ok sig c'" "u \<notin> fst ` set (usernames (store c))"
  shows "sig = Added \<and> snapshot c' = None \<and> store c' = allocate u i (store c)"
proof -
  from assms(1) obtain u1 c1 where b: "begin_tx c = Ok u1 c1"
    by (cases "begin_tx c") (simp_all add: upload_tx_def then_res_Throw)
  note s1 = begin_tx_Ok [OF b]
  from assms(1) b obtain u2 c2 where q1: "query (insert_username_do_nothing u i) c1 = Ok u2 c2"
    by (cases "query (insert_username_do_nothing u i) c1")
       (simp_all add: upload_tx_def then_res_Throw then_res_Ok)
  note s2 = query_Ok [OF q1]
  from assms(1) b q1 obtain u3 c3 where q2: "query (update_filled i) c2 = Ok u3 c3"
    by (cases "query (update_filled i) c2")
       (simp_all add: upload_tx_def then_res_Throw then_res_Ok)
  note s3 = query_Ok [OF q2]
  from assms(1) b q1 q2 obtain u4 c4 where cm: "commit_tx c3 = Ok u4 c4"
    by (cases "commit_tx c3")
       (simp_all add: upload_tx_def then_res_Throw then_res_Ok)
  note s4 = commit_tx_Ok [OF cm]
  from assms(1) b q1 q2 cm have e: "sig = Added" "c' = c4"
    by (simp_all add: upload_tx_def then_res_Ok)
  have "store c3 = allocate u i (store c)"
    using insert_do_nothing_then_update [of u "store c1" i "store c2" "store c3"] assms(2) s1 s2 s3
    by simp
  with e s4 show ?thesis by simp
qed

lemma upload_body_Throw:
  assumes "upload_body n c = Throw c'" "snapshot c = None"
  shows "store (rollback c') = store c"
proof (cases "trim_lower n = []")
  case True
  with assms show ?thesis by (simp add: upload_body_def)
next
  case ne: False
  show ?thesis
  proof (cases "query (select_exists (trim_lower n)) c")
    case (Throw c1)
    with assms ne query_Throw [OF Throw] show ?thesis
      by (simp add: upload_body_def then_res_Throw rollback_simps)
  next
    case q1: (Ok found c1)
    note s1 = query_Ok [OF q1]
    show ?thesis
    proof (cases found)
      case True
      with assms ne q1 show ?thesis by (simp add: upload_body_def then_res_Ok)
    next
      case nf: False
      show ?thesis
      proof (cases "query select_free_cell c1")
        case (Throw c2)
        with assms ne q1 nf s1 query_Throw [OF Throw] show ?thesis
          by (simp add: upload_body_def then_res_Throw then_res_Ok rollback_simps select_exists_iff)
      next
        case q2: (Ok freeCell c2)
        note s2 = query_Ok [OF q2]
        show ?thesis
        proof (cases freeCell)
          case None
          with assms ne q1 nf q2 show ?thesis by (simp add: upload_body_def then_res_Ok)
        next
          case (Some i)
          with assms ne q1 nf q2 have t: "upload_tx (trim_lower n) i c2 = Throw c'"
            by (simp add: upload_body_def then_res_Ok)
          have "snapshot c2 = None" "store c2 = store c"
            using s1 s2 assms(2) by (simp_all add: select_exists_iff select_free_cell_eq)
          with upload_tx_Throw [OF t] show ?thesis by simp
        qed
      qed
    qed
  qed
qed

lemma upload_body_Ok:
  assumes "upload_body n c = Ok sig c'" "snapshot c = None"
  shows "snapshot c' = None \<and>
    (case sig of
       Skipped \<Rightarrow> store c' = store c
         \<and> (trim_lower n = [] \<or> trim_lower n \<in> fst ` set (usernames (store c)))
     | Stop \<Rightarrow> store c' = store c \<and> free_cells (store c) = []
     | Added \<Rightarrow> trim_lower n \<noteq> [] \<and> trim_lower n \<notin> fst ` set (usernames (store c))
         \<and> (\<exists>cl fs. free_cells (store c) = cl # fs
               \<and> store c' = allocate (trim_lower n) (cell_id cl) (store c)))"
proof (cases "trim_lower n = []")
  case True
  with assms show ?thesis by (auto simp: upload_body_def)
next
  case ne: False
  from assms(1) ne obtain found c1 where q1: "query (select_exists (trim_lower n)) c = Ok found c1"
    by (cases "query (select_exists (trim_lower n)) c") (simp_all add: upload_body_def then_res_Throw)
  from query_Ok [OF q1] have s1: "found = (trim_lower n \<in> fst ` set (usernames (store c)))"
    "store c1 = store c" "snapshot c1 = snapshot c"
    by (auto simp: select_exists_iff)
  show ?thesis
  proof (cases found)
    case True
    with assms ne q1 s1 show ?thesis by (auto simp: upload_body_def then_res_Ok)
  next
    case nf: False
    from assms(1) ne q1 nf obtain freeCell c2 where q2: "query select_free_cell c1 = Ok freeCell c2"
      by (cases "query select_free_cell c1") (simp_all add: upload_body_def then_res_Throw then_res_Ok)
    from query_Ok [OF q2] s1 have s2:
      "freeCell = (case free_cells (store c) of [] \<Rightarrow> None | cl # _ \<Rightarrow> Some (cell_id cl))"
      "store c2 = store c" "snapshot c2 = snapshot c"
      by (auto simp: select_free_cell_eq)
    show ?thesis
    proof (cases "free_cells (store c)")
      case Nil
      with assms ne q1 nf q2 s2 show ?thesis by (auto simp: upload_body_def then_res_Ok)
    next
      case (Cons cl fs)
      with assms ne q1 nf q2 s2 have t: "upload_tx (trim_lower n) (cell_id cl) c2 = Ok sig c'"
        by (simp add: upload_body_def then_res_Ok)
      have "trim_lower n \<notin> fst ` set (usernames (store c2))"
        using nf s1 s2 by simp
      from upload_tx_Ok [OF t this] show ?thesis
        using Cons ne nf s1 s2 by simp
    qed
  qed
qed

subsection \<open>One candidate of \<open>processUsernamesUpload\<close>, with or without a failure\<close>

lemma confirm_body_Throw:
  assumes "confirm_body cnt n c = Throw c'"
  shows "snapshot c' = snapshot c"
proof -
  have ne: "\<not> cnt \<ge> SEASON_1_LIMIT" "trim_lower n \<noteq> []"
    using assms by (auto simp: confirm_body_def Let_def split: if_splits)
  show ?thesis
  proof (cases "query (select_exists (trim_lower n)) c")
    case (Throw c1)
    with assms ne query_Throw [OF Throw] show ?thesis
      by (simp add: confirm_body_def then_res_Throw)
  next
    case q1: (Ok found c1)
    note s1 = query_Ok [OF q1]
    have nf: "\<not> found"
      using assms ne q1 by (auto simp: confirm_body_def then_res_Ok)
    show ?thesis
    proof (cases "query select_free_cell c1")
      case (Throw c2)
      with assms ne q1 nf s1 query_Throw [OF Throw] show ?thesis
        by (simp add: confirm_body_def then_res_Throw then_res_Ok)
    next
      case q2: (Ok freeCell c2)
      note s2 = query_Ok [OF q2]
      from assms ne q1 nf q2 obtain i where i: "freeCell = Some i"
        by (cases freeCell) (simp_all add: confirm_body_def then_res_Ok)
      show ?thesis
      proof (cases "query (insert_username (trim_lower n) i) c2")
        case (Throw c3)
        with assms ne q1 nf q2 i s1 s2 query_Throw [OF Throw] show ?thesis
          by (simp add: confirm_body_def then_res_Throw then_res_Ok)
      next
        case q3: (Ok u3 c3)
        note s3 = query_Ok [OF q3]
        show ?thesis
        proof (cases "query (update_filled i) c3")
          case (Throw c4)
          with assms ne q1 nf q2 i q3 s1 s2 s3 query_Throw [OF Throw] show ?thesis
            by (simp add: confirm_body_def then_res_Throw then_res_Ok)
        next
          case (Ok u4 c4)
          with assms ne q1 nf q2 i q3 show ?thesis
            by (simp add: confirm_body_def then_res_Ok)
        qed
      qed
    qed
  qed
qed

lemma confirm_body_Ok:
  assumes "confirm_body cnt n c = Ok sig c'"
  shows "snapshot c' = snapshot c \<and>
    (case sig of
       Skipped \<Rightarrow> store c' = store c \<and> cnt < SEASON_1_LIMIT
         \<and> (trim_lower n = [] \<or> trim_lower n \<in> fst ` set (usernames (store c)))
     | Stop \<Rightarrow> store c' = store c \<and> (cnt \<ge> SEASON_1_LIMIT \<or> free_cells (store c) = [])
     | Added \<Rightarrow> cnt < SEASON_1_LIMIT
         \<and> trim_lower n \<noteq> [] \<and> trim_lower n \<notin> fst ` set (usernames (store c))
         \<and> (\<exists>cl fs. free_cells (store c) = cl # fs
               \<and> store c' = allocate (trim_lower n) (cell_id cl) (store c)))"
proof (cases "cnt \<ge> SEASON_1_LIMIT \<or> trim_lower n = []")
  case True
  with assms show ?thesis by (auto simp: confirm_body_def Let_def split: if_splits)
next
  case False
  then have ne: "\<not> cnt \<ge> SEASON_1_LIMIT" "trim_lower n \<noteq> []" by auto
  from assms ne obtain found c1 where q1: "query (select_exists (trim_lower n)) c = Ok found c1"
    by (cases "query (select_exists (trim_lower n)) c") (simp_all add: confirm_body_def then_res_Throw)
  from query_Ok [OF q1] have s1: "found = (trim_lower n \<in> fst ` set (usernames (store c)))"
    "store c1 = store c" "snapshot c1 = snapshot c"
    by (auto simp: select_exists_iff)
  show ?thesis
  proof (cases found)
    case True
    with assms ne q1 s1 show ?thesis by (auto simp: confirm_body_def then_res_Ok)
  next
    case nf: False
    from assms ne q1 nf obtain freeCell c2 where q2: "query select_free_cell c1 = Ok freeCell c2"
      by (cases "query select_free_cell c1") (simp_all add: confirm_body_def then_res_Throw then_res_Ok)
    from query_Ok [OF q2] s1 have s2:
      "freeCell = (case free_cells (store c) of [] \<Rightarrow> None | cl # _ \<Rightarrow> Some (cell_id cl))"
      "store c2 = store c" "snapshot c2 = snapshot c"
      by (auto simp: select_free_cell_eq)
    show ?thesis
    proof (cases "free_cells (store c)")
      case Nil
      with assms ne q1 nf q2 s2 show ?thesis by (auto simp: confirm_body_def then_res_Ok)
    next
      case (Cons cl fs)
      then have fc: "freeCell = Some (cell_id cl)" using s2 by simp
      from assms ne q1 nf q2 fc obtain u3 c3 where
        q3: "query (insert_username (trim_lower n) (cell_id cl)) c2 = Ok u3 c3"
        by (cases "query (insert_username (trim_lower n) (cell_id cl)) c2")
           (simp_all add: confirm_body_def then_res_Throw then_res_Ok)
      note s3 = query_Ok [OF q3]
      from assms ne q1 nf q2 fc q3 obtain u4 c4 where
        q4: "query (update_filled (cell_id cl)) c3 = Ok u4 c4"
        by (cases "query (update_filled (cell_id cl)) c3")
           (simp_all add: confirm_body_def then_res_Throw then_res_Ok)
      note s4 = query_Ok [OF q4]
      from assms ne q1 nf q2 fc q3 q4 have e: "sig = Added" "c' = c4"
        by (simp_all add: confirm_body_def then_res_Ok)
      have "trim_lower n \<notin> fst ` set (usernames (store c2))"
        using nf s1 s2 by simp
      from insert_then_update [OF this, of "cell_id cl" "store c3" "store c4"] s3 s4
      have "store c4 = allocate (trim_lower n) (cell_id cl) (store c)"
        using s2 by simp
      then show ?thesis
        using e Cons ne nf s1 s2 s3 s4 by simp
    qed
  qed
qed

subsection \<open>The loops keep what every allocation keeps\<close>

lemma upload_loop_keeps:
  assumes step: "\<And>d u cl fs. I d \<Longrightarrow> free_cells d = cl # fs \<Longrightarrow> u \<noteq> [] \<Longrightarrow>
                   u \<notin> fst ` set (usernames d) \<Longrightarrow> I (allocate u (cell_id cl) d)"
  shows "snapshot c = None \<Longrightarrow> I (store c) \<Longrightarrow>
     (case upload_loop names a s c of
        Ok r c' \<Rightarrow> snapshot c' = None \<and> I (store c')
      | Throw c' \<Rightarrow> I (store (rollback c')))"
proof (induction names arbitrary: a s c)
  case Nil
  then show ?case by simp
next
  case (Cons n names)
  show ?case
  proof (cases "upload_body n c")
    case (Throw c')
    from upload_body_Throw [OF Throw Cons.prems(1)] Cons.prems(2) Throw show ?thesis
      by simp
  next
    case (Ok sig c')
    from upload_body_Ok [OF Ok Cons.prems(1)] have
      sn: "snapshot c' = None" and
      st: "sig \<noteq> Added \<Longrightarrow> store c' = store c" and
      ad: "sig = Added \<Longrightarrow> trim_lower n \<noteq> [] \<and> trim_lower n \<notin> fst ` set (usernames (store c))
         \<and> (\<exists>cl fs. free_cells (store c) = cl # fs
               \<and> store c' = allocate (trim_lower n) (cell_id cl) (store c))"
      by (cases sig; simp)+
    have i: "I (store c')"
    proof (cases "sig = Added")
      case True
      from ad [OF True] step [OF Cons.prems(2)] show ?thesis by auto
    next
      case False
      with st Cons.prems(2) show ?thesis by simp
    qed
    show ?thesis
      using Ok sn i Cons.IH [OF sn i] by (cases sig) simp_all
  qed
qed

lemma confirm_loop_keeps:
  assumes step: "\<And>d u cl fs. I d \<Longrightarrow> free_cells d = cl # fs \<Longrightarrow> u \<noteq> [] \<Longrightarrow>
                   u \<notin> fst ` set (usernames d) \<Longrightarrow> I (allocate u (cell_id cl) d)"
  shows "I (store c) \<Longrightarrow>
     (case confirm_loop names cnt a s c of
        Ok r c' \<Rightarrow> snapshot c' = snapshot c \<and> I (store c')
      | Throw c' \<Rightarrow> snapshot c' = snapshot c)"
proof (induction names arbitrary: cnt a s c)
  case Nil
  then show ?case by simp
next
  case (Cons n names)
  show ?case
  proof (cases "confirm_body cnt n c")
    case (Throw c')
    from confirm_body_Throw [OF Throw] Throw show ?thesis
      by simp
  next
    case (Ok sig c')
    from confirm_body_Ok [OF Ok] have
      sn: "snapshot c' = snapshot c" and
      st: "sig \<noteq> Added \<Longrightarrow> store c' = store c" and
      ad: "sig = Added \<Longrightarrow> trim_lower n \<noteq> [] \<and> trim_lower n \<notin> fst ` set (usernames (store c))
         \<and> (\<exists>cl fs. free_cells (store c) = cl # fs
               \<and> store c' = allocate (trim_lower n) (cell_id cl) (store c))"
      by (cases sig; simp)+
    have i: "I (store c')"
    proof (cases "sig = Added")
      case True
      from ad [OF True] step [OF Cons.prems(1)] show ?thesis by auto
    next
      case False
      with st Cons.prems(1) show ?thesis by simp
    qed
    show ?thesis
    proof (cases sig)
      case Added
      with Ok sn Cons.IH [OF i, of "cnt + 1" "a + 1" s] show ?thesis
        by (simp split: res.splits)
    next
      case Skipped
      with Ok sn Cons.IH [OF i, of cnt a "s + 1"] show ?thesis
        by (simp split: res.splits)
    next
      case Stop
      with Ok sn i show ?thesis by simp
    qed
  qed
qed

subsection \<open>What an allocation keeps\<close>

lemma claims_on_allocate:
  "claims_on (allocate u i d) j = claims_on d j + (if i = j then 1 else 0)"
  by (simp add: claims_on_def allocate_def)

lemma cell_ids_allocate: "map cell_id (cells (allocate u i d)) = map cell_id (cells d)"
  by (simp add: allocate_def comp_def if_distrib [of cell_id])

lemma cells_with_allocate: "cells_with (allocate u i d) j = cells_with d j"
proof -
  have "length (filter (\<lambda>c. cell_id c = j)
                 (map (\<lambda>c. if cell_id c = i then c\<lparr>filled := True\<rparr> else c) cs))
        = length (filter (\<lambda>c. cell_id c = j) cs)" for cs
    by (induction cs) auto
  then show ?thesis by (simp add: cells_with_def allocate_def)
qed

lemma distinct_count_one:
  "distinct (map f xs) \<Longrightarrow> x \<in> set xs \<Longrightarrow> length (filter (\<lambda>y. f y = f x) xs) = 1"
proof (induction xs)
  case Nil
  then show ?case by simp
next
  case (Cons a xs)
  show ?case
  proof (cases "a = x")
    case True
    have "f y \<noteq> f x" if "y \<in> set xs" for y
      using Cons.prems(1) True that by (metis distinct.simps(2) image_eqI list.simps(9) set_map)
    then have "filter (\<lambda>y. f y = f x) xs = []"
      by (simp add: filter_empty_conv)
    with True show ?thesis by simp
  next
    case False
    with Cons.prems have "x \<in> set xs" "f a \<noteq> f x" by auto
    with Cons show ?thesis by simp
  qed
qed

lemma free_cell_in_cells: "free_cells d = cl # fs \<Longrightarrow> cl \<in> set (cells d) \<and> \<not> filled cl"
proof -
  assume "free_cells d = cl # fs"
  then have "cl \<in> set (filter (\<lambda>c. \<not> filled c) (cells d))"
    by (simp add: free_cells_def)
  then show ?thesis by simp
qed

lemma allocate_keeps_bijection:
  assumes pk: "cell_ids_unique d" and bij: "cell_claim_bijection d"
    and fr: "free_cells d = cl # fs"
  shows "cell_claim_bijection (allocate u (cell_id cl) d)"
proof -
  let ?i = "cell_id cl"
  let ?d' = "allocate u ?i d"
  from free_cell_in_cells [OF fr] have cl: "cl \<in> set (cells d)" "\<not> filled cl" by auto
  have none: "claims_on d ?i = 0"
  proof (rule ccontr)
    assume "claims_on d ?i \<noteq> 0"
    then have "filter (\<lambda>r. snd r = ?i) (usernames d) \<noteq> []"
      by (simp add: claims_on_def)
    then obtain r where "r \<in> set (usernames d)" "snd r = ?i"
      by (auto simp: filter_empty_conv)
    with bij have "claims_on d ?i = 1"
      by (auto simp: cell_claim_bijection_def)
    with bij cl show False
      by (auto simp: cell_claim_bijection_def)
  qed
  have one: "cells_with d ?i = 1"
    using distinct_count_one [of cell_id "cells d" cl] pk cl
    by (simp add: cell_ids_unique_def cells_with_def)
  have other: "snd r \<noteq> ?i" if "r \<in> set (usernames d)" for r
  proof
    assume "snd r = ?i"
    with that have "filter (\<lambda>r. snd r = ?i) (usernames d) \<noteq> []"
      by (auto simp: filter_empty_conv)
    with none show False by (simp add: claims_on_def)
  qed
  have p1: "filled c' \<longleftrightarrow> claims_on ?d' (cell_id c') = 1" if "c' \<in> set (cells ?d')" for c'
  proof -
    from that obtain c where c: "c \<in> set (cells d)"
      "c' = (if cell_id c = ?i then c\<lparr>filled := True\<rparr> else c)"
      by (auto simp: allocate_def)
    show ?thesis
    proof (cases "cell_id c = ?i")
      case True
      with c none show ?thesis by (simp add: claims_on_allocate)
    next
      case False
      with c bij show ?thesis
        by (auto simp: claims_on_allocate cell_claim_bijection_def)
    qed
  qed
  have p2: "cells_with ?d' (snd r) = 1 \<and> claims_on ?d' (snd r) = 1" if "r \<in> set (usernames ?d')" for r
  proof -
    from that have "r \<in> set (usernames d) \<or> r = (u, ?i)"
      by (auto simp: allocate_def)
    then show ?thesis
    proof
      assume r: "r \<in> set (usernames d)"
      with bij other [OF r] show ?thesis
        by (auto simp: claims_on_allocate cells_with_allocate cell_claim_bijection_def)
    next
      assume "r = (u, ?i)"
      with none one show ?thesis
        by (simp add: claims_on_allocate cells_with_allocate)
    qed
  qed
  from p1 p2 show ?thesis
    unfolding cell_claim_bijection_def by blast
qed

lemma allocate_keeps_consistent:
  "cell_ids_unique d \<and> cell_claim_bijection d \<Longrightarrow> free_cells d = cl # fs \<Longrightarrow>
   cell_ids_unique (allocate u (cell_id cl) d) \<and> cell_claim_bijection (allocate u (cell_id cl) d)"
  using allocate_keeps_bijection [of d cl fs u]
  by (simp add: cell_ids_unique_def cell_ids_allocate)


subsection \<open>The handlers keep what every allocation keeps\<close>

lemma committed_connect: "committed (connect d f) = d"
  by (simp add: committed_def connect_def)

lemma committed_rollback: "committed (rollback c) = committed c"
  by (simp add: committed_def rollback_def split: option.splits)

lemma admin_upload_keeps:
  assumes step: "\<And>d u cl fs. I d \<Longrightarrow> free_cells d = cl # fs \<Longrightarrow> u \<noteq> [] \<Longrightarrow>
                   u \<notin> fst ` set (usernames d) \<Longrightarrow> I (allocate u (cell_id cl) d)"
    and i: "I d"
  shows "I (committed (snd (admin_upload body (connect d f))))
     \<and> snapshot (snd (admin_upload body (connect d f))) = None"
proof (cases "body = None \<or> body = Some []")
  case True
  with i show ?thesis
    by (auto simp: admin_upload_def committed_def connect_def)
next
  case False
  then obtain n ns where b: "body = Some (n # ns)"
    by (cases body; cases "the body") auto
  have c: "snapshot (connect d f) = None" "I (store (connect d f))"
    using i by (simp_all add: connect_def)
  have "case upload_loop (n # ns) 0 0 (connect d f) of
          Ok r c' \<Rightarrow> snapshot c' = None \<and> I (store c')
        | Throw c' \<Rightarrow> I (store (rollback c'))"
    by (rule upload_loop_keeps [where I = I, OF step c])
  then show ?thesis
    unfolding b admin_upload_def
    by (auto split: res.splits simp: committed_def rollback_simps simp del: upload_loop.simps)
qed

section \<open>Batches without a failure\<close>

subsection \<open>The loops without a failure\<close>

lemma upload_body_nofault:
  "upload_body n \<lparr>store = d, snapshot = None, fault = None\<rparr> =
     (if trim_lower n = [] \<or> trim_lower n \<in> fst ` set (usernames d)
      then Ok Skipped \<lparr>store = d, snapshot = None, fault = None\<rparr>
      else case free_cells d of
             [] \<Rightarrow> Ok Stop \<lparr>store = d, snapshot = None, fault = None\<rparr>
           | cl # _ \<Rightarrow> Ok Added \<lparr>store = allocate (trim_lower n) (cell_id cl) d,
                                   snapshot = None, fault = None\<rparr>)"
  by (simp add: upload_body_def Let_def upload_tx_def query_nofault begin_tx_nofault commit_tx_nofault
      then_res_Ok select_exists_iff select_free_cell_eq insert_username_do_nothing_def
      update_filled_def allocate_def split: list.splits)

lemma confirm_body_nofault:
  "confirm_body cnt n \<lparr>store = d, snapshot = sn, fault = None\<rparr> =
     (if cnt \<ge> SEASON_1_LIMIT then Ok Stop \<lparr>store = d, snapshot = sn, fault = None\<rparr>
      else if trim_lower n = [] \<or> trim_lower n \<in> fst ` set (usernames d)
      then Ok Skipped \<lparr>store = d, snapshot = sn, fault = None\<rparr>
      else case free_cells d of
             [] \<Rightarrow> Ok Stop \<lparr>store = d, snapshot = sn, fault = None\<rparr>
           | cl # _ \<Rightarrow> Ok Added \<lparr>store = allocate (trim_lower n) (cell_id cl) d,
                                   snapshot = sn, fault = None\<rparr>)"
  by (simp add: confirm_body_def Let_def query_nofault
      then_res_Ok select_exists_iff select_free_cell_eq insert_username_def
      update_filled_def allocate_def split: list.splits)



lemma usernames_allocate: "usernames (allocate u i d) = usernames d @ [(u, i)]"
  by (simp add: allocate_def)




subsection \<open>Large tables\<close>

lemma seeded_count: "length (usernames (seeded n k)) = n"
  by (simp add: seeded_def)

lemma seeded_names: "u \<in> fst ` set (usernames (seeded n k)) \<Longrightarrow> hd u = CHR ''u''"
  by (auto simp: seeded_def)

lemma seeded_free: "free_cells (seeded n k) = map (seeded_cell n) [n..<n + k]"
proof -
  have a: "[0..<n + k] = [0..<n] @ [n..<n + k]"
    using upt_add_eq_append [of 0 n k] by simp
  have b: "filter (\<lambda>i. \<not> i < n) [0..<n] = []"
    by (simp add: filter_empty_conv)
  have c: "filter (\<lambda>i. \<not> i < n) [n..<n + k] = [n..<n + k]"
    by (simp add: filter_id_conv)
  have "free_cells (seeded n k) = map (seeded_cell n) (filter (\<lambda>i. \<not> i < n) [0..<n + k])"
    by (simp add: free_cells_def seeded_def filter_map comp_def seeded_cell_def)
  also have "\<dots> = map (seeded_cell n) [n..<n + k]"
    unfolding a filter_append b c by simp
  finally show ?thesis .
qed

lemma seeded_ids: "cell_ids_unique (seeded n k)"
proof -
  have "map cell_id (map (seeded_cell n) [0..<n + k]) = [0..<n + k]"
    by (simp add: comp_def seeded_cell_def map_idI)
  then show ?thesis
    by (simp add: cell_ids_unique_def seeded_def)
qed

lemma seeded_bijection: "cell_claim_bijection (seeded n k)"
proof -
  have cnt: "length (filter (\<lambda>j. j = i) [0..<m]) = (if i < m then 1 else 0)" for i m :: nat
    by (induction m) auto
  have co: "claims_on (seeded n k) i = (if i < n then 1 else 0)" for i
    using cnt [of i n] by (simp add: claims_on_def seeded_def filter_map comp_def)
  have cw: "cells_with (seeded n k) i = (if i < n + k then 1 else 0)" for i
    using cnt [of i "n + k"] by (simp add: cells_with_def seeded_def filter_map comp_def seeded_cell_def)
  show ?thesis
    unfolding cell_claim_bijection_def co cw
    by (auto simp: seeded_def seeded_cell_def)
qed

lemma seeded_free_one: "free_cells (seeded n (Suc k)) = seeded_cell n n # map (seeded_cell n) [Suc n..<n + Suc k]"
  by (simp add: seeded_free upt_conv_Cons del: upt_Suc)

lemma zed: "trim_lower ''zed'' = ''zed''" "trim_lower ''zoe'' = ''zoe''"
  by code_simp+

lemma z_not_seeded: "CHR ''z'' # u \<notin> fst ` set (usernames (seeded n k))"
  using seeded_names [of "CHR ''z'' # u" n k] by auto

section \<open>Filled cells and claims\<close>

lemma admin_upload_confirm_cases:
  assumes "admin_upload_confirm (Some (n # ns)) (connect d f) = (resp, c')"
  shows "snapshot c' = None \<and>
    ((resp = Status500 \<and> store c' = d)
     \<or> (\<exists>a s c2 c3. resp = Json200 a s \<and> store c' = store c3
           \<and> confirm_loop (n # ns) (length (usernames d)) 0 0 c2 = Ok (a, s) c3
           \<and> store c2 = d \<and> snapshot c2 = Some d \<and> snapshot c3 = Some d))"
proof (cases "begin_tx (connect d f)")
  case (Throw c1)
  with assms begin_tx_Throw [OF Throw] show ?thesis
    by (auto simp: admin_upload_confirm_def then_res_Throw rollback_simps connect_def)
next
  case b: (Ok u1 c1)
  from begin_tx_Ok [OF b] have s1: "store c1 = d" "snapshot c1 = Some d"
    by (simp_all add: connect_def)
  show ?thesis
  proof (cases "query select_count c1")
    case (Throw c2)
    with assms b s1 query_Throw [OF Throw] show ?thesis
      by (auto simp: admin_upload_confirm_def processUsernamesUpload_def then_res_Throw then_res_Ok
          rollback_simps)
  next
    case q: (Ok cnt c2)
    from query_Ok [OF q] s1 have s2: "cnt = length (usernames d)" "store c2 = d" "snapshot c2 = Some d"
      by (auto simp: select_count_def)
    show ?thesis
    proof (cases "confirm_loop (n # ns) cnt 0 0 c2")
      case (Throw c3)
      have "snapshot c3 = Some d"
        using confirm_loop_keeps [where I = "\<lambda>_. True" and c = c2 and names = "n # ns" and cnt = cnt
            and a = 0 and s = 0] Throw s2
        by simp
      with assms b q Throw show ?thesis
        by (auto simp: admin_upload_confirm_def processUsernamesUpload_def then_res_Throw then_res_Ok
            rollback_simps simp del: confirm_loop.simps)
    next
      case l: (Ok r c3)
      obtain a s where r: "r = (a, s)" by (cases r)
      have s3: "snapshot c3 = Some d"
        using confirm_loop_keeps [where I = "\<lambda>_. True" and c = c2 and names = "n # ns" and cnt = cnt
            and a = 0 and s = 0] l s2
        by simp
      show ?thesis
      proof (cases "commit_tx c3")
        case (Throw c4)
        with assms b q l s3 commit_tx_Throw [OF Throw] show ?thesis
          by (auto simp: admin_upload_confirm_def processUsernamesUpload_def then_res_Throw then_res_Ok
              rollback_simps simp del: confirm_loop.simps)
      next
        case (Ok u4 c4)
        with assms b q l r s2 s3 commit_tx_Ok [OF Ok] show ?thesis
          by (auto simp: admin_upload_confirm_def processUsernamesUpload_def then_res_Ok
              simp del: confirm_loop.simps)
      qed
    qed
  qed
qed

lemma admin_upload_confirm_keeps:
  assumes step: "\<And>d u cl fs. I d \<Longrightarrow> free_cells d = cl # fs \<Longrightarrow> u \<noteq> [] \<Longrightarrow>
                   u \<notin> fst ` set (usernames d) \<Longrightarrow> I (allocate u (cell_id cl) d)"
    and i: "I d"
  shows "I (committed (snd (admin_upload_confirm body (connect d f))))
     \<and> snapshot (snd (admin_upload_confirm body (connect d f))) = None"
proof (cases "body = None \<or> body = Some []")
  case True
  with i show ?thesis
    by (auto simp: admin_upload_confirm_def committed_def connect_def)
next
  case False
  then obtain n ns where b: "body = Some (n # ns)"
    by (cases body; cases "the body") auto
  obtain resp c' where r: "admin_upload_confirm (Some (n # ns)) (connect d f) = (resp, c')"
    by (cases "admin_upload_confirm (Some (n # ns)) (connect d f)")
  from admin_upload_confirm_cases [OF r] have sn: "snapshot c' = None" and
    cs: "(resp = Status500 \<and> store c' = d)
     \<or> (\<exists>a s c2 c3. resp = Json200 a s \<and> store c' = store c3
           \<and> confirm_loop (n # ns) (length (usernames d)) 0 0 c2 = Ok (a, s) c3
           \<and> store c2 = d \<and> snapshot c2 = Some d \<and> snapshot c3 = Some d)"
    by blast+
  have "I (store c')"
    using cs
  proof
    assume "resp = Status500 \<and> store c' = d"
    with i show ?thesis by simp
  next
    assume "\<exists>a s c2 c3. resp = Json200 a s \<and> store c' = store c3
           \<and> confirm_loop (n # ns) (length (usernames d)) 0 0 c2 = Ok (a, s) c3
           \<and> store c2 = d \<and> snapshot c2 = Some d \<and> snapshot c3 = Some d"
    then obtain a s c2 c3 where e: "store c' = store c3"
      "confirm_loop (n # ns) (length (usernames d)) 0 0 c2 = Ok (a, s) c3" "store c2 = d"
      by blast
    have i2: "I (store c2)" using i e(3) by simp
    have "case confirm_loop (n # ns) (length (usernames d)) 0 0 c2 of
            Ok r c' \<Rightarrow> snapshot c' = snapshot c2 \<and> I (store c')
          | Throw c' \<Rightarrow> snapshot c' = snapshot c2"
      by (rule confirm_loop_keeps [where I = I, OF step i2])
    with e show ?thesis by simp
  qed
  with sn r b show ?thesis
    by (simp add: committed_def)
qed

lemma run_call_keeps:
  assumes step: "\<And>d u cl fs. I d \<Longrightarrow> free_cells d = cl # fs \<Longrightarrow> u \<noteq> [] \<Longrightarrow>
                   u \<notin> fst ` set (usernames d) \<Longrightarrow> I (allocate u (cell_id cl) d)"
    and i: "I d"
  shows "I (run_call k d)"
proof (cases k)
  case (Upload body f)
  have "I (committed (snd (admin_upload body (connect d f))))
     \<and> snapshot (snd (admin_upload body (connect d f))) = None"
    by (rule admin_upload_keeps [where I = I, OF step i])
  with Upload show ?thesis by simp
next
  case (Confirm body f)
  have "I (committed (snd (admin_upload_confirm body (connect d f))))
     \<and> snapshot (snd (admin_upload_confirm body (connect d f))) = None"
    by (rule admin_upload_confirm_keeps [where I = I, OF step i])
  with Confirm show ?thesis by simp
qed

lemma run_calls_keeps:
  assumes step: "\<And>d u cl fs. I d \<Longrightarrow> free_cells d = cl # fs \<Longrightarrow> u \<noteq> [] \<Longrightarrow>
                   u \<notin> fst ` set (usernames d) \<Longrightarrow> I (allocate u (cell_id cl) d)"
  shows "I d \<Longrightarrow> I (run_calls ks d)"
proof (induction ks arbitrary: d)
  case Nil
  then show ?case by simp
next
  case (Cons k ks)
  have "I (run_call k d)"
    by (rule run_call_keeps [where I = I, OF step Cons.prems])
  from Cons.IH [OF this] show ?case by simp
qed

text \<open>
  Requests served one after the other. Start from tables in which cell ids are unique and
  filled cells and claims are in bijection: a cell is filled if and only if exactly one
  claim references its id, and every claim references exactly one cell and is the only
  claim on it. After any sequence of requests to \<open>/admin/upload\<close> and
  \<open>/admin/upload-confirm\<close>, each served to its end before the next begins, with any
  bodies and with or without a storage failure in each, the committed tables are again
  such.
\<close>

lemma bijection_after_calls:
  assumes "cell_ids_unique d" "cell_claim_bijection d"
  shows "cell_claim_bijection (run_calls ks d) \<and> cell_ids_unique (run_calls ks d)"
proof -
  let ?I = "\<lambda>d. cell_ids_unique d \<and> cell_claim_bijection d"
  have "?I (run_calls ks d)"
  proof (rule run_calls_keeps [where I = ?I])
    show "?I d" using assms by simp
  next
    fix d u cl fs
    assume "?I d" "free_cells d = cl # fs"
    then show "?I (allocate u (cell_id cl) d)"
      by (rule allocate_keeps_consistent)
  qed
  then show ?thesis by simp
qed

lemma bijection_after_calls_example:
  "cell_ids_unique grid2 \<and> cell_claim_bijection grid2
   \<and> cell_claim_bijection
       (run_calls [Upload (Some [''Ann'']) None, Confirm (Some [''bob'', ''cy'']) (Some 5)] grid2)
   \<and> cell_ids_unique
       (run_calls [Upload (Some [''Ann'']) None, Confirm (Some [''bob'', ''cy'']) (Some 5)] grid2)"
proof -
  have h: "cell_ids_unique grid2" "cell_claim_bijection grid2"
    by (simp_all add: grid2_def cell_ids_unique_def cell_claim_bijection_def claims_on_def cells_with_def)
  from h bijection_after_calls [OF h,
      of "[Upload (Some [''Ann'']) None, Confirm (Some [''bob'', ''cy'']) (Some 5)]"]
  show ?thesis by blast
qed

subsection \<open>Requests that overlap\<close>

text \<open>
  Claim C2 at a failing input. The tables have unique cell ids and are in bijection: two
  free cells, no claim. Two requests to \<open>/admin/upload\<close>, one with \<open>cy\<close> and one with
  \<open>dee\<close>, both run their existence check and their select of a free cell before either
  begins its transaction; both are given cell 1. After the two transactions two claims
  reference cell 1, so filled cells and claims are no longer in bijection. In the same
  way, when another client has committed \<open>cy\<close> on cell 2 between a request's checks
  for \<open>cy\<close> and its transaction on cell 1, the transaction inserts no row and fills
  cell 1: a filled cell that no claim references.
\<close>

theorem overlapping_uploads_break_bijection:
  "cell_ids_unique grid2 \<and> cell_claim_bijection grid2
   \<and> query (select_exists ''cy'') (connect grid2 None) = Ok False (connect grid2 None)
   \<and> query (select_exists ''dee'') (connect grid2 None) = Ok False (connect grid2 None)
   \<and> query select_free_cell (connect grid2 None) = Ok (Some 1) (connect grid2 None)
   \<and> upload_tx ''cy'' 1 (connect grid2 None) = Ok Added (connect (allocate ''cy'' 1 grid2) None)
   \<and> upload_tx ''dee'' 1 (connect (allocate ''cy'' 1 grid2) None)
       = Ok Added (connect (allocate ''dee'' 1 (allocate ''cy'' 1 grid2)) None)
   \<and> claims_on (allocate ''dee'' 1 (allocate ''cy'' 1 grid2)) 1 = 2
   \<and> \<not> cell_claim_bijection (allocate ''dee'' 1 (allocate ''cy'' 1 grid2))
   \<and> cell_claim_bijection (allocate ''cy'' 2 grid2)
   \<and> (case upload_tx ''cy'' 1 (connect (allocate ''cy'' 2 grid2) None) of
         Throw c' \<Rightarrow> False
       | Ok sig c' \<Rightarrow> sig = Added \<and> snapshot c' = None
           \<and> usernames (store c') = [(''cy'', 2)]
           \<and> map filled (cells (store c')) = [True, True]
           \<and> \<not> cell_claim_bijection (store c'))"
  by code_simp

theorem overlapping_uploads_break_bijection_witness:
  "\<not> cell_claim_bijection (allocate ''dee'' 1 (allocate ''cy'' 1 grid2))
   \<and> upload_tx ''dee'' 1 (connect (allocate ''cy'' 1 grid2) None)
       = Ok Added (connect (allocate ''dee'' 1 (allocate ''cy'' 1 grid2)) None)"
  using overlapping_uploads_break_bijection by blast

section \<open>The season limit\<close>

subsection \<open>The confirm path stays within the limit\<close>

lemma confirm_loop_limit:
  "confirm_loop names cnt a s c = Ok r c1 \<Longrightarrow> cnt = length (usernames (store c)) \<Longrightarrow>
   cnt \<le> SEASON_1_LIMIT \<Longrightarrow> length (usernames (store c1)) \<le> SEASON_1_LIMIT"
proof (induction names arbitrary: cnt a s c)
  case Nil
  then show ?case by simp
next
  case (Cons m names)
  from Cons.prems(1) obtain sig c0 where b: "confirm_body cnt m c = Ok sig c0"
    by (cases "confirm_body cnt m c") simp_all
  note o = confirm_body_Ok [OF b]
  show ?case
  proof (cases sig)
    case Added
    with b Cons.prems have l: "confirm_loop names (cnt + 1) (a + 1) s c0 = Ok r c1" by simp
    from o Added Cons.prems(2) have "cnt + 1 = length (usernames (store c0))" "cnt + 1 \<le> SEASON_1_LIMIT"
      by (auto simp: usernames_allocate)
    from Cons.IH [OF l this] show ?thesis .
  next
    case Skipped
    with b Cons.prems have l: "confirm_loop names cnt a (s + 1) c0 = Ok r c1" by simp
    from o Skipped Cons.prems(2) have "cnt = length (usernames (store c0))" by simp
    from Cons.IH [OF l this Cons.prems(3)] show ?thesis .
  next
    case Stop
    with b o Cons.prems show ?thesis by auto
  qed
qed

lemma confirm_respects_limit:
  assumes "length (usernames d) \<le> SEASON_1_LIMIT"
  shows "length (usernames (committed (snd (admin_upload_confirm body (connect d f))))) \<le> SEASON_1_LIMIT"
proof (cases "body = None \<or> body = Some []")
  case True
  with assms show ?thesis
    by (auto simp: admin_upload_confirm_def committed_def connect_def)
next
  case False
  then obtain n ns where b: "body = Some (n # ns)"
    by (cases body; cases "the body") auto
  obtain resp c' where r: "admin_upload_confirm (Some (n # ns)) (connect d f) = (resp, c')"
    by (cases "admin_upload_confirm (Some (n # ns)) (connect d f)")
  from admin_upload_confirm_cases [OF r] have sn: "snapshot c' = None" and
    cs: "(resp = Status500 \<and> store c' = d)
     \<or> (\<exists>a s c2 c3. resp = Json200 a s \<and> store c' = store c3
           \<and> confirm_loop (n # ns) (length (usernames d)) 0 0 c2 = Ok (a, s) c3
           \<and> store c2 = d \<and> snapshot c2 = Some d \<and> snapshot c3 = Some d)"
    by blast+
  have "length (usernames (store c')) \<le> SEASON_1_LIMIT"
    using cs
  proof
    assume "resp = Status500 \<and> store c' = d"
    with assms show ?thesis by simp
  next
    assume "\<exists>a s c2 c3. resp = Json200 a s \<and> store c' = store c3
           \<and> confirm_loop (n # ns) (length (usernames d)) 0 0 c2 = Ok (a, s) c3
           \<and> store c2 = d \<and> snapshot c2 = Some d \<and> snapshot c3 = Some d"
    then obtain a s c2 c3 where e: "store c' = store c3"
      "confirm_loop (n # ns) (length (usernames d)) 0 0 c2 = Ok (a, s) c3" "store c2 = d"
      by blast
    from confirm_loop_limit [OF e(2)] e(1,3) assms show ?thesis by simp
  qed
  with sn r b show ?thesis
    by (simp add: committed_def)
qed

subsection \<open>The inline path does not check the limit\<close>

text \<open>
  Claim C1 at a failing input. The ledger holds \<open>SEASON_1_LIMIT\<close> claims, filled cells and
  claims are in bijection, one cell is free. \<open>/admin/upload\<close> with one new name adds the
  claim: the ledger then holds \<open>SEASON_1_LIMIT + 1\<close> claims. The same request to
  \<open>/admin/upload-confirm\<close> adds nothing.
\<close>

theorem upload_exceeds_limit:
  "length (usernames (seeded SEASON_1_LIMIT 1)) = SEASON_1_LIMIT
   \<and> cell_claim_bijection (seeded SEASON_1_LIMIT 1)
   \<and> admin_upload (Some [''zed'']) (connect (seeded SEASON_1_LIMIT 1) None)
       = (Json200 1 0, connect (allocate ''zed'' SEASON_1_LIMIT (seeded SEASON_1_LIMIT 1)) None)
   \<and> length (usernames (allocate ''zed'' SEASON_1_LIMIT (seeded SEASON_1_LIMIT 1))) = SEASON_1_LIMIT + 1
   \<and> admin_upload_confirm (Some [''zed'']) (connect (seeded SEASON_1_LIMIT 1) None)
       = (Json200 0 0, connect (seeded SEASON_1_LIMIT 1) None)"
proof -
  let ?d = "seeded SEASON_1_LIMIT 1"
  have f: "free_cells (seeded SEASON_1_LIMIT (Suc 0)) = [seeded_cell SEASON_1_LIMIT SEASON_1_LIMIT]"
    using seeded_free_one [of SEASON_1_LIMIT 0] by simp
  have u: "admin_upload (Some [''zed'']) (connect ?d None)
       = (Json200 1 0, connect (allocate ''zed'' SEASON_1_LIMIT ?d) None)"
    by (simp add: admin_upload_def connect_def upload_body_nofault zed z_not_seeded f seeded_cell_def)
  have c: "admin_upload_confirm (Some [''zed'']) (connect ?d None) = (Json200 0 0, connect ?d None)"
    by (simp add: admin_upload_confirm_def processUsernamesUpload_def connect_def begin_tx_nofault
        commit_tx_nofault query_nofault select_count_def then_res_Ok confirm_body_nofault seeded_count)
  show ?thesis
    using u c by (simp add: seeded_count seeded_bijection usernames_allocate)
qed

theorem upload_exceeds_limit_witness:
  "SEASON_1_LIMIT
     < length (usernames (store (snd (admin_upload (Some [''zed''])
                                        (connect (seeded SEASON_1_LIMIT 1) None)))))"
  using upload_exceeds_limit by (simp add: connect_def)

section \<open>A storage failure in a batch\<close>

subsection \<open>Where a failing request stops\<close>

lemma upload_loop_Throw:
  "upload_loop names a s c = Throw c' \<Longrightarrow> snapshot c = None \<Longrightarrow>
   \<exists>pre n post a1 s1 c1.
     names = pre @ n # post \<and> upload_loop pre a s c = Ok (a1, s1) c1
     \<and> a1 + s1 = a + s + length pre \<and> snapshot c1 = None
     \<and> upload_body n c1 = Throw c' \<and> store (rollback c') = store c1"
proof (induction names arbitrary: a s c)
  case Nil
  then show ?case by simp
next
  case (Cons m names)
  show ?case
  proof (cases "upload_body m c")
    case (Throw c0)
    with Cons.prems have e: "c0 = c'" by simp
    from upload_body_Throw [OF Throw Cons.prems(2)] e Throw Cons.prems(2)
    have "m # names = [] @ m # names \<and> upload_loop [] a s c = Ok (a, s) c
     \<and> a + s = a + s + length ([] :: string list) \<and> snapshot c = None
     \<and> upload_body m c = Throw c' \<and> store (rollback c') = store c"
      by simp
    then show ?thesis by blast
  next
    case (Ok sig c0)
    from upload_body_Ok [OF Ok Cons.prems(2)] have sn: "snapshot c0 = None" by simp
    have ns: "sig \<noteq> Stop"
      using Cons.prems(1) Ok by auto
    define a0 where "a0 = (if sig = Added then a + 1 else a)"
    define s0 where "s0 = (if sig = Added then s else s + 1)"
    have l: "upload_loop (m # ms) a s c = upload_loop ms a0 s0 c0" for ms
      using Ok ns by (cases sig) (simp_all add: a0_def s0_def)
    from Cons.prems(1) l have "upload_loop names a0 s0 c0 = Throw c'" by simp
    from Cons.IH [OF this sn] obtain pre n post a1 s1 c1 where
      p: "names = pre @ n # post" "upload_loop pre a0 s0 c0 = Ok (a1, s1) c1"
        "a1 + s1 = a0 + s0 + length pre" "snapshot c1 = None"
        "upload_body n c1 = Throw c'" "store (rollback c') = store c1"
      by blast
    have "a0 + s0 = a + s + 1"
      by (simp add: a0_def s0_def)
    with p l [of pre] have "m # names = (m # pre) @ n # post
      \<and> upload_loop (m # pre) a s c = Ok (a1, s1) c1
      \<and> a1 + s1 = a + s + length (m # pre) \<and> snapshot c1 = None
      \<and> upload_body n c1 = Throw c' \<and> store (rollback c') = store c1"
      by simp
    then show ?thesis by blast
  qed
qed

text \<open>
  Claim C4, as the code has it. When a request to \<open>/admin/upload\<close> ends in a failure
  (status 500), the batch splits into the candidates before the failing one, the failing
  candidate and the rest; every candidate before it was counted, its transaction was
  committed, and the tables after the request are exactly the tables after those
  candidates: only the unit of the failing candidate is undone. When a request to
  \<open>/admin/upload-confirm\<close> ends in a failure, the tables are the tables from before the
  request: the one transaction around the whole batch is rolled back.
\<close>

theorem failure_rolls_back:
  "(admin_upload body (connect d f) = (Status500, c') \<longrightarrow>
      (\<exists>pre n post a1 s1 c1 c2.
         body = Some (pre @ n # post)
         \<and> upload_loop pre 0 0 (connect d f) = Ok (a1, s1) c1 \<and> a1 + s1 = length pre
         \<and> snapshot c1 = None \<and> upload_body n c1 = Throw c2
         \<and> snapshot c' = None \<and> store c' = store c1))
   \<and> (admin_upload_confirm body (connect d f) = (Status500, c'') \<longrightarrow>
        snapshot c'' = None \<and> store c'' = d)"
proof (rule conjI; rule impI)
  assume r: "admin_upload body (connect d f) = (Status500, c')"
  then obtain names where b: "body = Some names"
    by (cases body) (simp_all add: admin_upload_def)
  from r b obtain c2 where t: "upload_loop names 0 0 (connect d f) = Throw c2" "c' = rollback c2"
    by (cases names; cases "upload_loop names 0 0 (connect d f)")
       (auto simp: admin_upload_def split: prod.splits simp del: upload_loop.simps)
  have "snapshot (connect d f) = None" by (simp add: connect_def)
  from upload_loop_Throw [OF t(1) this] t(2) b
  show "\<exists>pre n post a1 s1 c1 c2.
         body = Some (pre @ n # post)
         \<and> upload_loop pre 0 0 (connect d f) = Ok (a1, s1) c1 \<and> a1 + s1 = length pre
         \<and> snapshot c1 = None \<and> upload_body n c1 = Throw c2
         \<and> snapshot c' = None \<and> store c' = store c1"
    by (simp add: rollback_simps) blast
next
  assume r: "admin_upload_confirm body (connect d f) = (Status500, c'')"
  then obtain n ns where b: "body = Some (n # ns)"
    by (cases body; cases "the body") (simp_all add: admin_upload_confirm_def)
  from admin_upload_confirm_cases [OF r [unfolded b]]
  show "snapshot c'' = None \<and> store c'' = d"
    by auto
qed

theorem failure_rolls_back_witness:
  "admin_upload (Some [''Ann'', ''bob'', ''cy'']) (connect grid2 (Some 9))
     = (Status500, connect (allocate ''ann'' 1 grid2) None)
   \<and> (\<exists>pre n post a1 s1 c1 c2.
         Some [''Ann'', ''bob'', ''cy''] = Some (pre @ n # post)
         \<and> upload_loop pre 0 0 (connect grid2 (Some 9)) = Ok (a1, s1) c1 \<and> a1 + s1 = length pre
         \<and> snapshot c1 = None \<and> upload_body n c1 = Throw c2
         \<and> snapshot (connect (allocate ''ann'' 1 grid2) None) = None
         \<and> store (connect (allocate ''ann'' 1 grid2) None) = store c1)
   \<and> admin_upload_confirm (Some [''Ann'', ''bob'', ''cy'']) (connect grid2 (Some 9))
     = (Status500, connect grid2 None)
   \<and> store (connect grid2 None) = grid2"
proof -
  have u: "admin_upload (Some [''Ann'', ''bob'', ''cy'']) (connect grid2 (Some 9))
     = (Status500, connect (allocate ''ann'' 1 grid2) None)"
    by code_simp
  have c: "admin_upload_confirm (Some [''Ann'', ''bob'', ''cy'']) (connect grid2 (Some 9))
     = (Status500, connect grid2 None)"
    by code_simp
  from u c failure_rolls_back [of "Some [''Ann'', ''bob'', ''cy'']" grid2 "Some 9"
      "connect (allocate ''ann'' 1 grid2) None" "connect grid2 None"]
  show ?thesis by blast
qed

text \<open>
  On the confirm path the first candidate of a batch is inserted and its cell filled, the
  query for the second candidate fails, and the tables are back to those before the
  request: the first candidate is gone as well.
\<close>

theorem confirm_failure_undoes_batch:
  "processUsernamesUpload [''ann''] \<lparr>store = grid2, snapshot = Some grid2, fault = Some 5\<rparr>
     = Ok (1, 0) \<lparr>store = allocate ''ann'' 1 grid2, snapshot = Some grid2, fault = Some 0\<rparr>
   \<and> usernames (allocate ''ann'' 1 grid2) = [(''ann'', 1)]
   \<and> admin_upload_confirm (Some [''ann'', ''bob'']) (connect grid2 (Some 6))
     = (Status500, connect grid2 None)
   \<and> usernames grid2 = []"
  by code_simp

section \<open>More candidates than free cells\<close>




section \<open>A conflict on insert\<close>

text \<open>
  Claim C3 at a failing input. A request has found \<open>ann\<close> absent and cell 1 free; before
  its insert another client commits the claim of \<open>ann\<close> on cell 2. The transaction of
  \<open>/admin/upload\<close> then inserts no row, yet marks cell 1 filled and counts the candidate as
  added: cell 1 is filled and no claim references it. On the confirm path the \<open>INSERT\<close>
  of the same situation is rejected, which ends the request in its \<open>catch\<close> block.
\<close>

theorem conflict_fills_cell:
  "query (select_exists ''ann'') (connect grid2 None) = Ok False (connect grid2 None)
   \<and> query select_free_cell (connect grid2 None) = Ok (Some 1) (connect grid2 None)
   \<and> cell_claim_bijection ann_on_2
   \<and> upload_tx ''ann'' 1 (connect ann_on_2 None) = Ok Added (connect ann_on_2_leak None)
   \<and> claims_on ann_on_2_leak 1 = 0
   \<and> \<not> cell_claim_bijection ann_on_2_leak
   \<and> query (insert_username ''ann'' 1) \<lparr>store = ann_on_2, snapshot = Some grid2, fault = None\<rparr>
       = Throw \<lparr>store = ann_on_2, snapshot = Some grid2, fault = None\<rparr>"
  by code_simp

theorem conflict_fills_cell_witness:
  "upload_tx ''ann'' 1 (connect ann_on_2 None) = Ok Added (connect ann_on_2_leak None)
   \<and> claims_on ann_on_2_leak 1 = 0"
  using conflict_fills_cell by blast

section \<open>Two requests at the same time\<close>

text \<open>
  Claim C6 at a failing input. Two requests to \<open>/admin/upload\<close> run their checks on the
  same committed tables before either has inserted: each finds the name absent and is
  given cell 1, since the row lock of a \<open>SELECT ... FOR UPDATE\<close> outside a transaction ends
  with the statement. Then the two transactions run one after the other. With the same
  name \<open>ann\<close> in both requests the second transaction inserts no row and is counted as
  added all the same: one claim, two times \<open>added\<close>, no skip. With the names \<open>ann\<close> and
  \<open>bob\<close> both claims are inserted on cell 1.
\<close>

theorem same_name_twice_both_added:
  "query (select_exists ''ann'') (connect grid2 None) = Ok False (connect grid2 None)
   \<and> query (select_exists ''bob'') (connect grid2 None) = Ok False (connect grid2 None)
   \<and> query select_free_cell (connect grid2 None) = Ok (Some 1) (connect grid2 None)
   \<and> upload_tx ''ann'' 1 (connect grid2 None) = Ok Added (connect (allocate ''ann'' 1 grid2) None)
   \<and> upload_tx ''ann'' 1 (connect (allocate ''ann'' 1 grid2) None)
       = Ok Added (connect (allocate ''ann'' 1 grid2) None)
   \<and> usernames (allocate ''ann'' 1 grid2) = [(''ann'', 1)]
   \<and> upload_tx ''bob'' 1 (connect (allocate ''ann'' 1 grid2) None)
       = Ok Added (connect (allocate ''bob'' 1 (allocate ''ann'' 1 grid2)) None)
   \<and> usernames (allocate ''bob'' 1 (allocate ''ann'' 1 grid2)) = [(''ann'', 1), (''bob'', 1)]
   \<and> claims_on (allocate ''bob'' 1 (allocate ''ann'' 1 grid2)) 1 = 2"
  by code_simp

section \<open>The same identifier more than once in a batch\<close>

subsection \<open>A batch in two parts\<close>










section \<open>Authorisation of the admin routes\<close>

text \<open>
  Claim C10. On each of the three admin routes the handler runs exactly when the header
  \<open>x-admin-secret\<close> is present, not empty and equal to \<open>ADMIN_SECRET\<close>. Every other
  request is answered with 401 and leaves the client untouched: no query has been sent.
  With \<open>ADMIN_SECRET\<close> unset every request is answered with 401.
\<close>

theorem adminAuth_gate:
  "(adminAuth secret env \<longleftrightarrow> (\<exists>s. secret = Some s \<and> s \<noteq> [] \<and> env = Some s))
   \<and> route_upload secret env body c =
       (if (\<exists>s. secret = Some s \<and> s \<noteq> [] \<and> env = Some s)
        then admin_upload body c else (Status401, c))
   \<and> route_upload_preview secret env file c =
       (if (\<exists>s. secret = Some s \<and> s \<noteq> [] \<and> env = Some s)
        then admin_upload_preview file c else (Status401, c))
   \<and> route_upload_confirm secret env body c =
       (if (\<exists>s. secret = Some s \<and> s \<noteq> [] \<and> env = Some s)
        then admin_upload_confirm body c else (Status401, c))
   \<and> route_upload secret None body c = (Status401, c)
   \<and> route_upload_preview secret None file c = (Status401, c)
   \<and> route_upload_confirm secret None body c = (Status401, c)"
proof -
  have a: "adminAuth secret e \<longleftrightarrow> (\<exists>s. secret = Some s \<and> s \<noteq> [] \<and> e = Some s)" for e
    by (cases secret) (auto simp: adminAuth_def)
  show ?thesis
    unfolding route_upload_def route_upload_preview_def route_upload_confirm_def a
    by simp
qed

theorem adminAuth_gate_witness:
  "adminAuth (Some ''s3cret'') (Some ''s3cret'')
   \<and> route_upload (Some ''s3cret'') (Some ''s3cret'') None (connect \<lparr>cells = [], usernames = []\<rparr> None)
       = (Status400, connect \<lparr>cells = [], usernames = []\<rparr> None)
   \<and> route_upload (Some ''guess'') (Some ''s3cret'') None (connect \<lparr>cells = [], usernames = []\<rparr> None)
       = (Status401, connect \<lparr>cells = [], usernames = []\<rparr> None)
   \<and> route_upload_confirm (Some []) (Some []) None (connect \<lparr>cells = [], usernames = []\<rparr> None)
       = (Status401, connect \<lparr>cells = [], usernames = []\<rparr> None)"
  using adminAuth_gate [of "Some ''s3cret''" "Some ''s3cret''" None "connect \<lparr>cells = [], usernames = []\<rparr> None"]
    adminAuth_gate [of "Some ''guess''" "Some ''s3cret''" None "connect \<lparr>cells = [], usernames = []\<rparr> None"]
    adminAuth_gate [of "Some []" "Some []" None "connect \<lparr>cells = [], usernames = []\<rparr> None"]
  by (simp add: admin_upload_def)

end
